theory Spec2Isabelle
  imports Main "HOL-Library.AList"
begin

section \<open>Merging several mapsets into one: the lock protocol of the merger\<close>

text \<open>
  The development embeds \<^verbatim>\<open>persistent_mapset_merger.py\<close>: the class
  \<^verbatim>\<open>AsyncPersistentMapsetMerging\<close> with its methods \<^verbatim>\<open>_check_lock_mapset\<close>,
  \<^verbatim>\<open>_check_lock_source_mapsets\<close>, \<^verbatim>\<open>_merge_mapsets\<close>, \<^verbatim>\<open>_execute\<close> and
  \<^verbatim>\<open>_final_cleanup\<close>.

  The methods talk to collaborators that live in other modules: the existence check
  \<^verbatim>\<open>_check_mapset\<close>, the lock service \<^verbatim>\<open>lock_interface\<close>, the termination flag of
  \<^verbatim>\<open>resource_logger\<close>, the copy \<^verbatim>\<open>_merge_mapset_into_target\<close>, the two
  message sinks, \<^verbatim>\<open>_setup\<close> and the inherited \<^verbatim>\<open>_final_cleanup\<close>. They are
  parameters of the model. Each of them answers a call with a value or with an
  exception, and the answer may depend on everything that happened before: a
  collaborator is a function of the history of events. Every call is appended to that
  history together with its answer, so that the history is at the same time the trace
  of the run. The two message sinks, \<^verbatim>\<open>message_logger.info\<close> and
  \<^verbatim>\<open>_send_resource_update\<close>, are collaborators like the others: a call of them may
  raise, and the exception leaves the method at the place of the call.

  The dictionary \<^verbatim>\<open>self.lock_ids\<close> is an association list with the behaviour of a
  Python dictionary that keeps insertion order: storing under a new key appends an
  entry, storing under a key that is present replaces the value where it stands.
\<close>

subsection \<open>Exceptions, events, collaborators\<close>

datatype exn =
    AsyncProcessError string
  | AsyncProcessTermination string
  | KeyError string
  | OtherException string

datatype event =
    EvSetup "exn + unit"
  | EvCheckMapset string "exn + bool"
  | EvLock string int "exn + int"
  | EvLogInfo string "exn + unit"
  | EvGetTermination string string "exn + bool"
  | EvExtend string int "exn + int"
  | EvSendResourceUpdate string "exn + unit"
  | EvMerge string string "exn + unit"
  | EvParentFinalCleanup "exn + unit"
  | EvUnlock string "exn + int"

record collaborators =
  setup_call :: "event list \<Rightarrow> exn + unit"
  check_mapset :: "event list \<Rightarrow> string \<Rightarrow> exn + bool"
  lock_interface_lock :: "event list \<Rightarrow> string \<Rightarrow> int \<Rightarrow> exn + int"
  lock_interface_extend :: "event list \<Rightarrow> string \<Rightarrow> int \<Rightarrow> exn + int"
  lock_interface_unlock :: "event list \<Rightarrow> string \<Rightarrow> exn + int"
  get_termination :: "event list \<Rightarrow> string \<Rightarrow> string \<Rightarrow> exn + bool"
  merge_mapset_into_target :: "event list \<Rightarrow> string \<Rightarrow> string \<Rightarrow> exn + unit"
  parent_final_cleanup :: "event list \<Rightarrow> exn + unit"
  message_logger_info :: "event list \<Rightarrow> string \<Rightarrow> exn + unit"
  send_resource_update :: "event list \<Rightarrow> string \<Rightarrow> exn + unit"

subsection \<open>The job and the state of the processing object\<close>

record job =
  user_group :: string
  location_name :: string
  target_mapset_name :: string
  request_data :: "string list"
  user_id :: string
  resource_id :: string
  process_time_limit :: int
  process_num_limit :: int

record merging =
  lock_ids :: "(string \<times> string) list"
  history :: "event list"

text \<open>The constructor: \<^verbatim>\<open>self.lock_ids = {}\<close>, and nothing has happened yet.\<close>

definition new_merging :: merging where
  "new_merging = \<lparr>lock_ids = [], history = []\<rparr>"

definition record_event :: "event \<Rightarrow> merging \<Rightarrow> merging" where
  "record_event e s = s\<lparr>history := history s @ [e]\<rparr>"

subsection \<open>Formatting\<close>

definition digit_char :: "nat \<Rightarrow> char" where
  "digit_char d = ''0123456789'' ! d"

function show_nat :: "nat \<Rightarrow> string" where
  "show_nat n = (if n < 10 then [digit_char n] else show_nat (n div 10) @ [digit_char (n mod 10)])"
  by pat_completeness auto
termination
  by (relation "measure id") auto

declare show_nat.simps [simp del]

text \<open>\<^verbatim>\<open>"%s/%s/%s" % (self.user_group, self.location_name, mapset_name)\<close>\<close>

definition lock_id_of :: "job \<Rightarrow> string \<Rightarrow> string" where
  "lock_id_of j mapset_name = user_group j @ ''/'' @ location_name j @ ''/'' @ mapset_name"

definition not_exist_message :: "string \<Rightarrow> string" where
  "not_exist_message mapset_name =
     ''Mapset <'' @ mapset_name @ ''> does not exist and can not be locked.''"

definition already_locked_message :: "string \<Rightarrow> string" where
  "already_locked_message mapset_name =
     ''Unable to lock mapset <'' @ mapset_name @ ''>, resource is already locked''"

definition locked_message :: "string \<Rightarrow> string" where
  "locked_message mapset_name = ''Mapset <'' @ mapset_name @ ''> locked''"

definition termination_message :: "nat \<Rightarrow> nat \<Rightarrow> string" where
  "termination_message step steps =
     ''Mapset merging was terminated by user request at setp '' @ show_nat step
       @ '' of '' @ show_nat steps"

definition extend_failed_message :: "string \<Rightarrow> string" where
  "extend_failed_message mapset_name =
     ''Unable to extend lock for mapset <'' @ mapset_name @ ''>''"

definition step_message :: "nat \<Rightarrow> nat \<Rightarrow> string \<Rightarrow> string \<Rightarrow> string" where
  "step_message step steps mapset_name target =
     ''Step '' @ show_nat step @ '' of '' @ show_nat steps
       @ '': Copy content from source mapset <'' @ mapset_name
       @ ''> into target mapset <'' @ target @ ''>''"

subsection \<open>\<^verbatim>\<open>_check_lock_mapset\<close>\<close>

definition check_lock_mapset ::
  "collaborators \<Rightarrow> job \<Rightarrow> string \<Rightarrow> merging \<Rightarrow> (exn + unit) \<times> merging" where
  "check_lock_mapset c j mapset_name s =
    (let r = check_mapset c (history s) mapset_name;
         s1 = record_event (EvCheckMapset mapset_name r) s
     in case r of
          Inl e \<Rightarrow> (Inl e, s1)
        | Inr mapset_exists \<Rightarrow>
            if \<not> mapset_exists
            then (Inl (AsyncProcessError (not_exist_message mapset_name)), s1)
            else
              (let lock_id = lock_id_of j mapset_name;
                   expiration = process_time_limit j * process_num_limit j;
                   r2 = lock_interface_lock c (history s1) lock_id expiration;
                   s2 = record_event (EvLock lock_id expiration r2) s1
               in case r2 of
                    Inl e \<Rightarrow> (Inl e, s2)
                  | Inr ret \<Rightarrow>
                      if ret = 0
                      then (Inl (AsyncProcessError (already_locked_message mapset_name)), s2)
                      else
                        (let r3 = message_logger_info c (history s2)
                                    (locked_message mapset_name);
                             s3 = record_event (EvLogInfo (locked_message mapset_name) r3) s2
                         in case r3 of
                              Inl e \<Rightarrow> (Inl e, s3)
                            | Inr _ \<Rightarrow>
                                (Inr (),
                                 s3\<lparr>lock_ids :=
                                      AList.update lock_id mapset_name (lock_ids s3)\<rparr>))))"

subsection \<open>\<^verbatim>\<open>_check_lock_source_mapsets\<close>\<close>

fun lock_each ::
  "collaborators \<Rightarrow> job \<Rightarrow> string list \<Rightarrow> merging \<Rightarrow> (exn + unit) \<times> merging" where
  "lock_each c j [] s = (Inr (), s)"
| "lock_each c j (mapset # rest) s =
     (case check_lock_mapset c j mapset s of
        (Inl e, s1) \<Rightarrow> (Inl e, s1)
      | (Inr _, s1) \<Rightarrow> lock_each c j rest s1)"

definition check_lock_source_mapsets ::
  "collaborators \<Rightarrow> job \<Rightarrow> string list \<Rightarrow> merging \<Rightarrow> (exn + unit) \<times> merging" where
  "check_lock_source_mapsets c j source_mapsets s =
     (if length source_mapsets = 0
      then (Inl (AsyncProcessError ''Empty source mapset list.''), s)
      else lock_each c j source_mapsets s)"

subsection \<open>\<^verbatim>\<open>_merge_mapsets\<close>\<close>

text \<open>The local variables of the method that live across the iterations of its loop.\<close>

record locals =
  step :: nat
  mapsets_to_merge :: "string list"

text \<open>
  The inner loop: every registered lock is extended; a zero answer raises an error
  that carries \<^verbatim>\<open>mapset_name\<close>, the mapset of the enclosing iteration.
\<close>

fun extend_locks ::
  "collaborators \<Rightarrow> job \<Rightarrow> string \<Rightarrow> string list \<Rightarrow> merging \<Rightarrow> (exn + unit) \<times> merging" where
  "extend_locks c j mapset_name [] s = (Inr (), s)"
| "extend_locks c j mapset_name (lock_id # rest) s =
     (let expiration = process_time_limit j * 2;
          r = lock_interface_extend c (history s) lock_id expiration;
          s1 = record_event (EvExtend lock_id expiration r) s
      in case r of
           Inl e \<Rightarrow> (Inl e, s1)
         | Inr ret \<Rightarrow>
             if ret = 0
             then (Inl (AsyncProcessError (extend_failed_message mapset_name)), s1)
             else extend_locks c j mapset_name rest s1)"

text \<open>
  One iteration of the outer loop. The result carries the local variables as they are
  when control leaves the iteration, by a raise (\<open>Some e\<close>) or at its end (\<open>None\<close>).
\<close>

definition merge_step ::
  "collaborators \<Rightarrow> job \<Rightarrow> nat \<Rightarrow> string \<Rightarrow> locals \<Rightarrow> merging \<Rightarrow> exn option \<times> locals \<times> merging" where
  "merge_step c j steps lock_id v s =
    (let r = get_termination c (history s) (user_id j) (resource_id j);
         s1 = record_event (EvGetTermination (user_id j) (resource_id j) r) s
     in case r of
          Inl e \<Rightarrow> (Some e, v, s1)
        | Inr terminated \<Rightarrow>
            if terminated
            then (Some (AsyncProcessTermination (termination_message (step v) steps)), v, s1)
            else
              (case map_of (lock_ids s1) lock_id of
                 None \<Rightarrow> (Some (KeyError lock_id), v, s1)
               | Some mapset_name \<Rightarrow>
                   (let v1 = v\<lparr>mapsets_to_merge := mapsets_to_merge v @ [mapset_name]\<rparr>
                    in case extend_locks c j mapset_name (map fst (lock_ids s1)) s1 of
                         (Inl e, s2) \<Rightarrow> (Some e, v1, s2)
                       | (Inr _, s2) \<Rightarrow>
                           (let message = step_message (step v1) steps mapset_name
                                            (target_mapset_name j);
                                r4 = send_resource_update c (history s2) message;
                                s3 = record_event (EvSendResourceUpdate message r4) s2
                            in case r4 of
                                 Inl e \<Rightarrow> (Some e, v1, s3)
                               | Inr _ \<Rightarrow>
                                   (let r5 = message_logger_info c (history s3) message;
                                        s4 = record_event (EvLogInfo message r5) s3
                                    in case r5 of
                                         Inl e \<Rightarrow> (Some e, v1, s4)
                                       | Inr _ \<Rightarrow>
                                           if mapset_name \<noteq> target_mapset_name j
                                           then
                                             (let v2 = v1\<lparr>step := step v1 + 1\<rparr>;
                                                  r3 = merge_mapset_into_target c (history s4)
                                                         mapset_name (target_mapset_name j);
                                                  s5 = record_event
                                                         (EvMerge mapset_name
                                                            (target_mapset_name j) r3) s4
                                              in case r3 of
                                                   Inl e \<Rightarrow> (Some e, v2, s5)
                                                 | Inr _ \<Rightarrow> (None, v2, s5))
                                           else (None, v1, s4))))))"

fun merge_loop ::
  "collaborators \<Rightarrow> job \<Rightarrow> nat \<Rightarrow> string list \<Rightarrow> locals \<Rightarrow> merging \<Rightarrow> exn option \<times> locals \<times> merging" where
  "merge_loop c j steps [] v s = (None, v, s)"
| "merge_loop c j steps (lock_id # rest) v s =
     (case merge_step c j steps lock_id v s of
        (Some e, v1, s1) \<Rightarrow> (Some e, v1, s1)
      | (None, v1, s1) \<Rightarrow> merge_loop c j steps rest v1 s1)"

text \<open>\<^verbatim>\<open>step = 1\<close> and \<^verbatim>\<open>mapsets_to_merge = []\<close>, as the loop is entered.\<close>

definition loop_entry :: locals where
  "loop_entry = \<lparr>step = 1, mapsets_to_merge = []\<rparr>"

definition merge_mapsets :: "collaborators \<Rightarrow> job \<Rightarrow> merging \<Rightarrow> (exn + unit) \<times> merging" where
  "merge_mapsets c j s =
     (case check_lock_mapset c j (target_mapset_name j) s of
        (Inl e, s1) \<Rightarrow> (Inl e, s1)
      | (Inr _, s1) \<Rightarrow>
          (case check_lock_source_mapsets c j (request_data j) s1 of
             (Inl e, s2) \<Rightarrow> (Inl e, s2)
           | (Inr _, s2) \<Rightarrow>
               (case merge_loop c j (length (request_data j)) (map fst (lock_ids s2))
                       loop_entry s2 of
                  (Some e, v, s3) \<Rightarrow> (Inl e, s3)
                | (None, v, s3) \<Rightarrow> (Inr (), s3))))"

subsection \<open>\<^verbatim>\<open>_execute\<close> and \<^verbatim>\<open>_final_cleanup\<close>\<close>

definition execute :: "collaborators \<Rightarrow> job \<Rightarrow> merging \<Rightarrow> (exn + unit) \<times> merging" where
  "execute c j s =
     (let r = setup_call c (history s);
          s1 = record_event (EvSetup r) s
      in case r of
           Inl e \<Rightarrow> (Inl e, s1)
         | Inr _ \<Rightarrow> merge_mapsets c j s1)"

fun unlock_each :: "collaborators \<Rightarrow> string list \<Rightarrow> merging \<Rightarrow> (exn + unit) \<times> merging" where
  "unlock_each c [] s = (Inr (), s)"
| "unlock_each c (lock_id # rest) s =
     (let r = lock_interface_unlock c (history s) lock_id;
          s1 = record_event (EvUnlock lock_id r) s
      in case r of
           Inl e \<Rightarrow> (Inl e, s1)
         | Inr _ \<Rightarrow> unlock_each c rest s1)"

definition final_cleanup :: "collaborators \<Rightarrow> merging \<Rightarrow> (exn + unit) \<times> merging" where
  "final_cleanup c s =
     (let r = parent_final_cleanup c (history s);
          s1 = record_event (EvParentFinalCleanup r) s
      in case r of
           Inl e \<Rightarrow> (Inl e, s1)
         | Inr _ \<Rightarrow> unlock_each c (map fst (lock_ids s1)) s1)"

text \<open>
  Modelled from the spec: the method \<^verbatim>\<open>run\<close> of the base class, which is not part of
  this module. The job is executed once on a fresh object and the cleanup is called
  exactly once afterwards, whatever the outcome of the execution was; the outcome that
  is reported is the one of the execution.
\<close>

definition run :: "collaborators \<Rightarrow> job \<Rightarrow> (exn + unit) \<times> merging" where
  "run c j =
     (case execute c j new_merging of
        (r, s1) \<Rightarrow> (r, snd (final_cleanup c s1)))"

subsection \<open>Reading the trace\<close>

fun lock_call_of :: "event \<Rightarrow> string list" where
  "lock_call_of (EvLock lock_id expiration r) = [lock_id]"
| "lock_call_of _ = []"

fun granted_lock_of :: "event \<Rightarrow> string list" where
  "granted_lock_of (EvLock lock_id expiration (Inr ret)) = (if ret = 0 then [] else [lock_id])"
| "granted_lock_of _ = []"

fun unlock_call_of :: "event \<Rightarrow> string list" where
  "unlock_call_of (EvUnlock lock_id r) = [lock_id]"
| "unlock_call_of _ = []"

fun merge_call_of :: "event \<Rightarrow> (string \<times> string) list" where
  "merge_call_of (EvMerge source target r) = [(source, target)]"
| "merge_call_of _ = []"

fun log_of :: "event \<Rightarrow> string list" where
  "log_of (EvLogInfo message r) = [message]"
| "log_of _ = []"

text \<open>All lock calls, the lock calls that were granted, the unlock calls, the
  merge-copy invocations and the lines passed to the logger, each in the order of the
  calls.\<close>

definition lock_calls :: "event list \<Rightarrow> string list" where
  "lock_calls h = concat (map lock_call_of h)"

definition granted_locks :: "event list \<Rightarrow> string list" where
  "granted_locks h = concat (map granted_lock_of h)"

definition unlock_calls :: "event list \<Rightarrow> string list" where
  "unlock_calls h = concat (map unlock_call_of h)"

definition merge_calls :: "event list \<Rightarrow> (string \<times> string) list" where
  "merge_calls h = concat (map merge_call_of h)"

definition log_lines :: "event list \<Rightarrow> string list" where
  "log_lines h = concat (map log_of h)"

fun is_poll :: "event \<Rightarrow> bool" where
  "is_poll (EvGetTermination uid rid r) = True"
| "is_poll _ = False"

fun is_termination_signal :: "event \<Rightarrow> bool" where
  "is_termination_signal (EvGetTermination uid rid (Inr terminated)) = terminated"
| "is_termination_signal _ = False"

fun is_failed_extend :: "event \<Rightarrow> bool" where
  "is_failed_extend (EvExtend lock_id expiration (Inr ret)) = (ret = 0)"
| "is_failed_extend _ = False"

fun is_completed_merge :: "event \<Rightarrow> bool" where
  "is_completed_merge (EvMerge source target (Inr u)) = True"
| "is_completed_merge _ = False"

fun is_raised_log :: "event \<Rightarrow> bool" where
  "is_raised_log (EvLogInfo message (Inl e)) = True"
| "is_raised_log _ = False"

fun is_cleanup_failure :: "event \<Rightarrow> bool" where
  "is_cleanup_failure (EvParentFinalCleanup (Inl e)) = True"
| "is_cleanup_failure (EvUnlock lock_id (Inl e)) = True"
| "is_cleanup_failure _ = False"

text \<open>A call of the execution that did not succeed: it raised, or it answered that the
  mapset does not exist, that the lock or the extension is refused, or that the
  termination is requested.\<close>

fun is_failure :: "event \<Rightarrow> bool" where
  "is_failure (EvSetup (Inl e)) = True"
| "is_failure (EvCheckMapset mapset_name (Inl e)) = True"
| "is_failure (EvCheckMapset mapset_name (Inr mapset_exists)) = (\<not> mapset_exists)"
| "is_failure (EvLock lock_id expiration (Inl e)) = True"
| "is_failure (EvLock lock_id expiration (Inr ret)) = (ret = 0)"
| "is_failure (EvLogInfo message (Inl e)) = True"
| "is_failure (EvGetTermination uid rid (Inl e)) = True"
| "is_failure (EvGetTermination uid rid (Inr terminated)) = terminated"
| "is_failure (EvExtend lock_id expiration (Inl e)) = True"
| "is_failure (EvExtend lock_id expiration (Inr ret)) = (ret = 0)"
| "is_failure (EvSendResourceUpdate message (Inl e)) = True"
| "is_failure (EvMerge source target (Inl e)) = True"
| "is_failure _ = False"

text \<open>The termination polls of a history, the polls that were answered \<^verbatim>\<open>True\<close>, the
  extension calls that were answered \<^verbatim>\<open>0\<close>, the merge-copy invocations that
  returned, the calls of the logger that raised, the calls of the cleanup that raised,
  and the calls of the execution that did not succeed.\<close>

definition polls :: "event list \<Rightarrow> event list" where
  "polls h = filter is_poll h"

definition termination_signals :: "event list \<Rightarrow> event list" where
  "termination_signals h = filter is_termination_signal h"

definition failed_extends :: "event list \<Rightarrow> event list" where
  "failed_extends h = filter is_failed_extend h"

definition completed_merges :: "event list \<Rightarrow> event list" where
  "completed_merges h = filter is_completed_merge h"

definition raised_logs :: "event list \<Rightarrow> event list" where
  "raised_logs h = filter is_raised_log h"

definition cleanup_failures :: "event list \<Rightarrow> event list" where
  "cleanup_failures h = filter is_cleanup_failure h"

definition failures :: "event list \<Rightarrow> event list" where
  "failures h = filter is_failure h"

text \<open>The lock ids that are held after a history: a granted lock call takes the lock
  id, an unlock call gives it back.\<close>

fun holds :: "string list \<Rightarrow> event \<Rightarrow> string list" where
  "holds held (EvLock lock_id expiration (Inr ret)) = (if ret = 0 then held else lock_id # held)"
| "holds held (EvUnlock lock_id r) = removeAll lock_id held"
| "holds held _ = held"

definition held_keys :: "event list \<Rightarrow> string list" where
  "held_keys h = foldl holds [] h"

text \<open>The elements of a list in the order of their first occurrences: the order in
  which a dictionary lists keys that were stored in the order of the list.\<close>

definition first_occurrences :: "'a list \<Rightarrow> 'a list" where
  "first_occurrences xs = rev (remdups (rev xs))"

text \<open>The merge-copy invocations that a list of mapsets gives rise to: one for each
  mapset that is not the target.\<close>

definition copies :: "string \<Rightarrow> string list \<Rightarrow> (string \<times> string) list" where
  "copies target names = map (\<lambda>m. (m, target)) (filter (\<lambda>m. m \<noteq> target) names)"

subsection \<open>Assumptions on the collaborators\<close>

text \<open>The calls of the cleanup return: the inherited cleanup does, and every unlock
  call does, with whatever value.\<close>

definition cleanup_returns :: "collaborators \<Rightarrow> bool" where
  "cleanup_returns c \<longleftrightarrow>
     (\<forall>h. parent_final_cleanup c h = Inr ()) \<and>
     (\<forall>h k. \<exists>ret. lock_interface_unlock c h k = Inr ret)"

text \<open>A lock service that refuses a lock id that is held: when it answers a lock call
  for a lock id that is held, the answer is \<^verbatim>\<open>0\<close>.\<close>

definition refuses_held :: "collaborators \<Rightarrow> bool" where
  "refuses_held c \<longleftrightarrow>
     (\<forall>h k e ret. k \<in> set (held_keys h) \<and> lock_interface_lock c h k e = Inr ret \<longrightarrow> ret = 0)"

subsection \<open>Concrete collaborators and jobs\<close>

text \<open>Collaborators that grant everything and never request a termination.\<close>

definition granting :: collaborators where
  "granting =
     \<lparr>setup_call = (\<lambda>h. Inr ()),
      check_mapset = (\<lambda>h m. Inr True),
      lock_interface_lock = (\<lambda>h k e. Inr 1),
      lock_interface_extend = (\<lambda>h k e. Inr 1),
      lock_interface_unlock = (\<lambda>h k. Inr 1),
      get_termination = (\<lambda>h u r. Inr False),
      merge_mapset_into_target = (\<lambda>h a b. Inr ()),
      parent_final_cleanup = (\<lambda>h. Inr ()),
      message_logger_info = (\<lambda>h m. Inr ()),
      send_resource_update = (\<lambda>h m. Inr ())\<rparr>"

definition job_of :: "string \<Rightarrow> string list \<Rightarrow> job" where
  "job_of target sources =
     \<lparr>user_group = ''g'', location_name = ''l'', target_mapset_name = target,
      request_data = sources, user_id = ''u'', resource_id = ''r'',
      process_time_limit = 60, process_num_limit = 10\<rparr>"

text \<open>A lock service that answers every lock call with \<^verbatim>\<open>0\<close>, an unlock that raises,
  and an unlock that reports a failure by its value.\<close>

definition lock_refusing :: collaborators where
  "lock_refusing = granting\<lparr>lock_interface_lock := (\<lambda>h k e. Inr 0)\<rparr>"

definition unlock_raising :: collaborators where
  "unlock_raising =
     granting\<lparr>lock_interface_unlock := (\<lambda>h k. Inl (OtherException ''connection lost''))\<rparr>"

definition unlock_failing :: collaborators where
  "unlock_failing = granting\<lparr>lock_interface_unlock := (\<lambda>h k. Inr 0)\<rparr>"

text \<open>The object after the mapsets \<^verbatim>\<open>A\<close> and \<^verbatim>\<open>B\<close> were locked, with an empty trace.\<close>

definition holding_A_B :: merging where
  "holding_A_B = \<lparr>lock_ids = [(''g/l/A'', ''A''), (''g/l/B'', ''B'')], history = []\<rparr>"

text \<open>A copy that raises.\<close>

definition copy_failing :: collaborators where
  "copy_failing =
     granting\<lparr>merge_mapset_into_target := (\<lambda>h a b. Inl (OtherException ''copy failed''))\<rparr>"

text \<open>Collaborators with an exclusive lock service: a lock call is refused, with the
  answer \<^verbatim>\<open>0\<close>, when the lock id is held, and granted otherwise. All other calls
  succeed.\<close>

definition exclusive_service :: collaborators where
  "exclusive_service =
     granting\<lparr>lock_interface_lock := (\<lambda>h k e. Inr (if k \<in> set (held_keys h) then 0 else 1))\<rparr>"

text \<open>With the exclusive lock service: a termination that is requested once the first
  copy was made, extensions that are refused once the first copy was made, a logger
  that raises, an unlock that raises, an inherited cleanup that raises, and a
  termination after the first copy followed by an unlock that raises.\<close>

definition terminated_after_first_copy :: collaborators where
  "terminated_after_first_copy =
     exclusive_service\<lparr>get_termination := (\<lambda>h u r. Inr (merge_calls h \<noteq> []))\<rparr>"

definition lease_lost_after_first_copy :: collaborators where
  "lease_lost_after_first_copy =
     exclusive_service
       \<lparr>lock_interface_extend := (\<lambda>h k e. Inr (if merge_calls h = [] then 1 else 0))\<rparr>"

definition logger_raising :: collaborators where
  "logger_raising =
     exclusive_service\<lparr>message_logger_info := (\<lambda>h m. Inl (OtherException ''log failed''))\<rparr>"

definition exclusive_unlock_raising :: collaborators where
  "exclusive_unlock_raising =
     exclusive_service
       \<lparr>lock_interface_unlock := (\<lambda>h k. Inl (OtherException ''connection lost''))\<rparr>"

definition inherited_cleanup_raising :: collaborators where
  "inherited_cleanup_raising =
     exclusive_service\<lparr>parent_final_cleanup := (\<lambda>h. Inl (OtherException ''cleanup failed''))\<rparr>"

definition terminated_unlock_raising :: collaborators where
  "terminated_unlock_raising =
     terminated_after_first_copy
       \<lparr>lock_interface_unlock := (\<lambda>h k. Inl (OtherException ''connection lost''))\<rparr>"

section \<open>Properties\<close>

subsection \<open>Reading a trace that grows\<close>

lemma trace_Nil [simp]:
  "lock_calls [] = []" "granted_locks [] = []" "unlock_calls [] = []" "merge_calls [] = []"
  "log_lines [] = []" "polls [] = []" "termination_signals [] = []" "failed_extends [] = []"
  "completed_merges [] = []" "raised_logs [] = []" "cleanup_failures [] = []" "failures [] = []"
  by (simp_all add: lock_calls_def granted_locks_def unlock_calls_def merge_calls_def
      log_lines_def polls_def termination_signals_def failed_extends_def completed_merges_def
      raised_logs_def cleanup_failures_def failures_def)

lemma trace_append [simp]:
  "lock_calls (h @ h') = lock_calls h @ lock_calls h'"
  "granted_locks (h @ h') = granted_locks h @ granted_locks h'"
  "unlock_calls (h @ h') = unlock_calls h @ unlock_calls h'"
  "merge_calls (h @ h') = merge_calls h @ merge_calls h'"
  "log_lines (h @ h') = log_lines h @ log_lines h'"
  "polls (h @ h') = polls h @ polls h'"
  "termination_signals (h @ h') = termination_signals h @ termination_signals h'"
  "failed_extends (h @ h') = failed_extends h @ failed_extends h'"
  "completed_merges (h @ h') = completed_merges h @ completed_merges h'"
  "raised_logs (h @ h') = raised_logs h @ raised_logs h'"
  "cleanup_failures (h @ h') = cleanup_failures h @ cleanup_failures h'"
  "failures (h @ h') = failures h @ failures h'"
  by (simp_all add: lock_calls_def granted_locks_def unlock_calls_def merge_calls_def
      log_lines_def polls_def termination_signals_def failed_extends_def completed_merges_def
      raised_logs_def cleanup_failures_def failures_def)

lemma trace_Cons [simp]:
  "lock_calls (e # h) = lock_call_of e @ lock_calls h"
  "granted_locks (e # h) = granted_lock_of e @ granted_locks h"
  "unlock_calls (e # h) = unlock_call_of e @ unlock_calls h"
  "merge_calls (e # h) = merge_call_of e @ merge_calls h"
  "log_lines (e # h) = log_of e @ log_lines h"
  "polls (e # h) = (if is_poll e then e # polls h else polls h)"
  "termination_signals (e # h) =
     (if is_termination_signal e then e # termination_signals h else termination_signals h)"
  "failed_extends (e # h) = (if is_failed_extend e then e # failed_extends h else failed_extends h)"
  "completed_merges (e # h) =
     (if is_completed_merge e then e # completed_merges h else completed_merges h)"
  "raised_logs (e # h) = (if is_raised_log e then e # raised_logs h else raised_logs h)"
  "cleanup_failures (e # h) =
     (if is_cleanup_failure e then e # cleanup_failures h else cleanup_failures h)"
  "failures (e # h) = (if is_failure e then e # failures h else failures h)"
  by (simp_all add: lock_calls_def granted_locks_def unlock_calls_def merge_calls_def
      log_lines_def polls_def termination_signals_def failed_extends_def completed_merges_def
      raised_logs_def cleanup_failures_def failures_def)

lemma history_record_event [simp]: "history (record_event e s) = history s @ [e]"
  by (simp add: record_event_def)

lemma lock_ids_record_event [simp]: "lock_ids (record_event e s) = lock_ids s"
  by (simp add: record_event_def)

lemma new_merging_simps [simp]:
  "lock_ids new_merging = []" "history new_merging = []"
  by (simp_all add: new_merging_def)

subsection \<open>Locking one mapset\<close>

text \<open>The paths through \<^verbatim>\<open>_check_lock_mapset\<close>, each with the events it adds.\<close>

lemma check_lock_mapset_cases:
  fixes c j m s
  defines "key \<equiv> lock_id_of j m"
  defines "expiration \<equiv> process_time_limit j * process_num_limit j"
  obtains
    (absent) r e where
      "history (snd (check_lock_mapset c j m s)) = history s @ [EvCheckMapset m r]"
      "r \<noteq> Inr True" "is_failure (EvCheckMapset m r)"
      "fst (check_lock_mapset c j m s) = Inl e"
      "lock_ids (snd (check_lock_mapset c j m s)) = lock_ids s"
  | (refused) r e where
      "history (snd (check_lock_mapset c j m s)) =
         history s @ [EvCheckMapset m (Inr True), EvLock key expiration r]"
      "\<forall>ret. r = Inr ret \<longrightarrow> ret = 0" "is_failure (EvLock key expiration r)"
      "granted_lock_of (EvLock key expiration r) = []"
      "fst (check_lock_mapset c j m s) = Inl e"
      "lock_ids (snd (check_lock_mapset c j m s)) = lock_ids s"
  | (unlogged) ret e where
      "history (snd (check_lock_mapset c j m s)) =
         history s @ [EvCheckMapset m (Inr True), EvLock key expiration (Inr ret),
           EvLogInfo (locked_message m) (Inl e)]"
      "ret \<noteq> 0"
      "fst (check_lock_mapset c j m s) = Inl e"
      "lock_ids (snd (check_lock_mapset c j m s)) = lock_ids s"
  | (locked) ret where
      "history (snd (check_lock_mapset c j m s)) =
         history s @ [EvCheckMapset m (Inr True), EvLock key expiration (Inr ret),
           EvLogInfo (locked_message m) (Inr ())]"
      "ret \<noteq> 0"
      "fst (check_lock_mapset c j m s) = Inr ()"
      "lock_ids (snd (check_lock_mapset c j m s)) = AList.update key m (lock_ids s)"
proof (cases "check_mapset c (history s) m")
  case (Inl e)
  then have "history (snd (check_lock_mapset c j m s)) = history s @ [EvCheckMapset m (Inl e)] \<and>
      fst (check_lock_mapset c j m s) = Inl e \<and>
      lock_ids (snd (check_lock_mapset c j m s)) = lock_ids s"
    by (simp add: check_lock_mapset_def Let_def)
  then show ?thesis using absent [of "Inl e" e] by simp
next
  case (Inr mapset_exists)
  note checked = this
  show ?thesis
  proof (cases mapset_exists)
    case False
    then have "history (snd (check_lock_mapset c j m s)) =
        history s @ [EvCheckMapset m (Inr False)] \<and>
      fst (check_lock_mapset c j m s) = Inl (AsyncProcessError (not_exist_message m)) \<and>
      lock_ids (snd (check_lock_mapset c j m s)) = lock_ids s"
      using checked by (simp add: check_lock_mapset_def Let_def)
    then show ?thesis
      using absent [of "Inr False" "AsyncProcessError (not_exist_message m)"] by simp
  next
    case True
    let ?s1 = "record_event (EvCheckMapset m (Inr True)) s"
    let ?r2 = "lock_interface_lock c (history ?s1) key expiration"
    let ?s2 = "record_event (EvLock key expiration ?r2) ?s1"
    show ?thesis
    proof (cases ?r2)
      case (Inl e)
      then have "history (snd (check_lock_mapset c j m s)) =
          history s @ [EvCheckMapset m (Inr True), EvLock key expiration (Inl e)] \<and>
        fst (check_lock_mapset c j m s) = Inl e \<and>
        lock_ids (snd (check_lock_mapset c j m s)) = lock_ids s"
        using checked True
        by (simp add: check_lock_mapset_def Let_def key_def expiration_def)
      then show ?thesis using refused [of "Inl e" e] by simp
    next
      case (Inr ret)
      note answered = this
      show ?thesis
      proof (cases "ret = 0")
        case True
        then have "history (snd (check_lock_mapset c j m s)) =
            history s @ [EvCheckMapset m (Inr True), EvLock key expiration (Inr 0)] \<and>
          fst (check_lock_mapset c j m s) = Inl (AsyncProcessError (already_locked_message m)) \<and>
          lock_ids (snd (check_lock_mapset c j m s)) = lock_ids s"
          using checked \<open>mapset_exists\<close> answered
          by (simp add: check_lock_mapset_def Let_def key_def expiration_def)
        then show ?thesis
          using refused [of "Inr 0" "AsyncProcessError (already_locked_message m)"] by simp
      next
        case False
        let ?r3 = "message_logger_info c (history ?s2) (locked_message m)"
        show ?thesis
        proof (cases ?r3)
          case (Inl e)
          then have "history (snd (check_lock_mapset c j m s)) =
              history s @ [EvCheckMapset m (Inr True), EvLock key expiration (Inr ret),
                EvLogInfo (locked_message m) (Inl e)] \<and>
            fst (check_lock_mapset c j m s) = Inl e \<and>
            lock_ids (snd (check_lock_mapset c j m s)) = lock_ids s"
            using checked \<open>mapset_exists\<close> answered False
            by (simp add: check_lock_mapset_def Let_def key_def expiration_def)
          then show ?thesis using unlogged [of ret e] False by simp
        next
          case (Inr u)
          then have "history (snd (check_lock_mapset c j m s)) =
              history s @ [EvCheckMapset m (Inr True), EvLock key expiration (Inr ret),
                EvLogInfo (locked_message m) (Inr ())] \<and>
            fst (check_lock_mapset c j m s) = Inr () \<and>
            lock_ids (snd (check_lock_mapset c j m s)) = AList.update key m (lock_ids s)"
            using checked \<open>mapset_exists\<close> answered False
            by (simp add: check_lock_mapset_def Let_def key_def expiration_def)
          then show ?thesis using locked [of ret] False by simp
        qed
      qed
    qed
  qed
qed

lemma check_lock_mapset_registry:
  "lock_ids (snd (check_lock_mapset c j m s)) =
     (case fst (check_lock_mapset c j m s) of
        Inl e \<Rightarrow> lock_ids s
      | Inr u \<Rightarrow> AList.update (lock_id_of j m) m (lock_ids s))"
  by (cases rule: check_lock_mapset_cases [of c j m s]) simp_all

lemma check_lock_mapset_trace:
  "unlock_calls (history (snd (check_lock_mapset c j m s))) = unlock_calls (history s)"
  "merge_calls (history (snd (check_lock_mapset c j m s))) = merge_calls (history s)"
  "polls (history (snd (check_lock_mapset c j m s))) = polls (history s)"
  "termination_signals (history (snd (check_lock_mapset c j m s))) =
     termination_signals (history s)"
  "failed_extends (history (snd (check_lock_mapset c j m s))) = failed_extends (history s)"
  "cleanup_failures (history (snd (check_lock_mapset c j m s))) = cleanup_failures (history s)"
  by (cases rule: check_lock_mapset_cases [of c j m s]; simp)+

lemma check_lock_mapset_returned:
  assumes "fst (check_lock_mapset c j m s) = Inr ()"
  shows "granted_locks (history (snd (check_lock_mapset c j m s))) =
           granted_locks (history s) @ [lock_id_of j m]"
    and "lock_calls (history (snd (check_lock_mapset c j m s))) =
           lock_calls (history s) @ [lock_id_of j m]"
    and "failures (history (snd (check_lock_mapset c j m s))) = failures (history s)"
    and "raised_logs (history (snd (check_lock_mapset c j m s))) = raised_logs (history s)"
  using assms by (cases rule: check_lock_mapset_cases [of c j m s]; simp)+

lemma check_lock_mapset_failed:
  assumes "fst (check_lock_mapset c j m s) = Inl e"
  shows "length (failures (history (snd (check_lock_mapset c j m s)))) =
           Suc (length (failures (history s)))"
  using assms by (cases rule: check_lock_mapset_cases [of c j m s]) simp_all

text \<open>When the logger did not raise, the locks that were granted are the locks that were
  registered.\<close>

lemma check_lock_mapset_logged:
  assumes "raised_logs (history (snd (check_lock_mapset c j m s))) = raised_logs (history s)"
  shows "granted_locks (history (snd (check_lock_mapset c j m s))) =
           granted_locks (history s) @
             (case fst (check_lock_mapset c j m s) of Inl e \<Rightarrow> [] | Inr u \<Rightarrow> [lock_id_of j m])"
  using assms by (cases rule: check_lock_mapset_cases [of c j m s]) simp_all

lemma check_lock_mapset_grows:
  "\<exists>new. history (snd (check_lock_mapset c j m s)) = history s @ new"
  by (cases rule: check_lock_mapset_cases [of c j m s]) simp_all

lemma check_lock_mapset_existing:
  "check_mapset c (history s) m = Inr True \<Longrightarrow>
     lock_calls (history (snd (check_lock_mapset c j m s))) =
       lock_calls (history s) @ [lock_id_of j m]"
  by (simp add: check_lock_mapset_def Let_def split: sum.splits)

lemma check_lock_mapset_one_lock_call:
  "lock_calls (history (snd (check_lock_mapset c j m s))) = lock_calls (history s) \<or>
   lock_calls (history (snd (check_lock_mapset c j m s))) =
     lock_calls (history s) @ [lock_id_of j m]"
  by (cases rule: check_lock_mapset_cases [of c j m s]) simp_all

subsection \<open>First occurrences\<close>

lemma first_occurrences_Nil [simp]: "first_occurrences [] = []"
  by (simp add: first_occurrences_def)

lemma first_occurrences_snoc:
  "first_occurrences (xs @ [x]) =
     (if x \<in> set xs then first_occurrences xs else first_occurrences xs @ [x])"
  by (simp add: first_occurrences_def)

lemma set_first_occurrences [simp]: "set (first_occurrences xs) = set xs"
  by (simp add: first_occurrences_def)

lemma distinct_first_occurrences [simp]: "distinct (first_occurrences xs)"
  by (simp add: first_occurrences_def)

lemma first_occurrences_distinct: "distinct xs \<Longrightarrow> first_occurrences xs = xs"
  by (simp add: first_occurrences_def distinct_remdups_id)

lemma length_first_occurrences: "length (first_occurrences xs) = card (set xs)"
  by (metis distinct_card distinct_first_occurrences set_first_occurrences)

lemma length_first_occurrences_le: "length (first_occurrences xs) \<le> length xs"
  by (simp add: length_first_occurrences card_length)

lemma first_occurrences_Cons:
  "first_occurrences (x # xs) = x # first_occurrences (filter (\<lambda>y. y \<noteq> x) xs)"
proof (induction xs rule: rev_induct)
  case Nil
  then show ?case by (simp add: first_occurrences_def)
next
  case (snoc y xs)
  have "first_occurrences (x # xs @ [y]) = first_occurrences ((x # xs) @ [y])"
    by simp
  also have "\<dots> = (if y \<in> set (x # xs) then first_occurrences (x # xs)
                     else first_occurrences (x # xs) @ [y])"
    by (rule first_occurrences_snoc)
  finally show ?case
    using snoc by (auto simp: first_occurrences_snoc)
qed

subsection \<open>The keys of the registry are the lock ids that were granted\<close>

lemma check_lock_mapset_keys:
  assumes "map fst (lock_ids s) = first_occurrences (granted_locks (history s))"
    and "raised_logs (history (snd (check_lock_mapset c j m s))) = raised_logs (history s)"
  shows "map fst (lock_ids (snd (check_lock_mapset c j m s))) =
           first_occurrences (granted_locks (history (snd (check_lock_mapset c j m s))))"
proof (cases "fst (check_lock_mapset c j m s)")
  case (Inl e)
  then show ?thesis
    using assms(1) check_lock_mapset_logged [OF assms(2)]
    by (simp add: check_lock_mapset_registry)
next
  case (Inr u)
  have "set (map fst (lock_ids s)) = set (granted_locks (history s))"
    using assms(1) by simp
  then show ?thesis
    using assms(1) Inr check_lock_mapset_logged [OF assms(2)]
    by (simp add: check_lock_mapset_registry update_keys first_occurrences_snoc del: set_map)
qed

lemma lock_each_grows: "\<exists>new. history (snd (lock_each c j ms s)) = history s @ new"
proof (induction ms arbitrary: s)
  case Nil
  then show ?case by simp
next
  case (Cons m ms)
  obtain r s1 where clm: "check_lock_mapset c j m s = (r, s1)"
    by (cases "check_lock_mapset c j m s")
  obtain n1 where n1: "history s1 = history s @ n1"
    using check_lock_mapset_grows [of c j m s] clm by auto
  show ?case
  proof (cases r)
    case (Inl e)
    then show ?thesis using clm n1 by simp
  next
    case (Inr u)
    obtain n2 where "history (snd (lock_each c j ms s1)) = history s1 @ n2"
      using Cons.IH [of s1] by auto
    then show ?thesis using clm n1 Inr by simp
  qed
qed

lemma lock_each_keys:
  "map fst (lock_ids s) = first_occurrences (granted_locks (history s)) \<Longrightarrow>
   raised_logs (history (snd (lock_each c j ms s))) = raised_logs (history s) \<Longrightarrow>
   map fst (lock_ids (snd (lock_each c j ms s))) =
     first_occurrences (granted_locks (history (snd (lock_each c j ms s))))"
proof (induction ms arbitrary: s)
  case Nil
  then show ?case by simp
next
  case (Cons m ms)
  obtain r s1 where clm: "check_lock_mapset c j m s = (r, s1)"
    by (cases "check_lock_mapset c j m s")
  obtain n1 where n1: "history s1 = history s @ n1"
    using check_lock_mapset_grows [of c j m s] clm by auto
  show ?case
  proof (cases r)
    case (Inl e)
    then have "raised_logs (history s1) = raised_logs (history s)"
      using Cons.prems(2) clm by simp
    then have "map fst (lock_ids s1) = first_occurrences (granted_locks (history s1))"
      using check_lock_mapset_keys [OF Cons.prems(1), of c j m] clm by simp
    then show ?thesis using clm Inl by simp
  next
    case (Inr u)
    obtain n2 where n2: "history (snd (lock_each c j ms s1)) = history s1 @ n2"
      using lock_each_grows by blast
    have total: "raised_logs (history (snd (lock_each c j ms s1))) = raised_logs (history s)"
      using Cons.prems(2) clm Inr by simp
    then have "raised_logs n1 @ raised_logs n2 = []"
      using n1 n2 by simp
    then have first: "raised_logs (history s1) = raised_logs (history s)"
      and rest: "raised_logs (history (snd (lock_each c j ms s1))) = raised_logs (history s1)"
      using n1 n2 by simp_all
    have inv: "map fst (lock_ids s1) = first_occurrences (granted_locks (history s1))"
      using check_lock_mapset_keys [OF Cons.prems(1), of c j m] first clm by simp
    show ?thesis
      using Cons.IH [OF inv rest] clm Inr by simp
  qed
qed

lemma lock_each_trace:
  "unlock_calls (history (snd (lock_each c j ms s))) = unlock_calls (history s) \<and>
   merge_calls (history (snd (lock_each c j ms s))) = merge_calls (history s) \<and>
   polls (history (snd (lock_each c j ms s))) = polls (history s) \<and>
   termination_signals (history (snd (lock_each c j ms s))) = termination_signals (history s) \<and>
   failed_extends (history (snd (lock_each c j ms s))) = failed_extends (history s) \<and>
   cleanup_failures (history (snd (lock_each c j ms s))) = cleanup_failures (history s)"
proof (induction ms arbitrary: s)
  case Nil
  then show ?case by simp
next
  case (Cons m ms)
  obtain r s1 where clm: "check_lock_mapset c j m s = (r, s1)"
    by (cases "check_lock_mapset c j m s")
  have s1: "unlock_calls (history s1) = unlock_calls (history s)"
    "merge_calls (history s1) = merge_calls (history s)"
    "polls (history s1) = polls (history s)"
    "termination_signals (history s1) = termination_signals (history s)"
    "failed_extends (history s1) = failed_extends (history s)"
    "cleanup_failures (history s1) = cleanup_failures (history s)"
    using check_lock_mapset_trace [of c j m s] clm by simp_all
  show ?case
  proof (cases r)
    case (Inl e)
    then show ?thesis using clm s1 by simp
  next
    case (Inr u)
    then show ?thesis using clm s1 Cons.IH [of s1] by simp
  qed
qed

lemma lock_each_returned:
  "fst (lock_each c j ms s) = Inr () \<Longrightarrow>
     lock_calls (history (snd (lock_each c j ms s))) =
       lock_calls (history s) @ map (lock_id_of j) ms \<and>
     granted_locks (history (snd (lock_each c j ms s))) =
       granted_locks (history s) @ map (lock_id_of j) ms \<and>
     failures (history (snd (lock_each c j ms s))) = failures (history s)"
proof (induction ms arbitrary: s)
  case Nil
  then show ?case by simp
next
  case (Cons m ms)
  obtain r s1 where clm: "check_lock_mapset c j m s = (r, s1)"
    by (cases "check_lock_mapset c j m s")
  have r: "r = Inr ()"
    using Cons.prems(1) clm by (cases r) simp_all
  then have ok: "fst (check_lock_mapset c j m s) = Inr ()"
    using clm by simp
  have rest: "fst (lock_each c j ms s1) = Inr ()"
    using Cons.prems(1) clm r by simp
  note one = check_lock_mapset_returned [OF ok]
  show ?case
    using Cons.IH [OF rest] clm r one by simp
qed

lemma lock_each_failed:
  "fst (lock_each c j ms s) = Inl e \<Longrightarrow>
     length (failures (history (snd (lock_each c j ms s)))) = Suc (length (failures (history s)))"
proof (induction ms arbitrary: s)
  case Nil
  then show ?case by simp
next
  case (Cons m ms)
  obtain r s1 where clm: "check_lock_mapset c j m s = (r, s1)"
    by (cases "check_lock_mapset c j m s")
  show ?case
  proof (cases r)
    case (Inl e')
    then have "fst (check_lock_mapset c j m s) = Inl e'"
      using clm by simp
    from check_lock_mapset_failed [OF this] show ?thesis
      using clm Inl by simp
  next
    case (Inr u)
    then have ok: "fst (check_lock_mapset c j m s) = Inr ()"
      using clm by simp
    have "fst (lock_each c j ms s1) = Inl e"
      using Cons.prems clm Inr by simp
    from Cons.IH [OF this] show ?thesis
      using clm Inr check_lock_mapset_returned(3) [OF ok] by simp
  qed
qed

subsection \<open>The entries of the registry\<close>

lemma lock_id_of_eq [simp]: "lock_id_of j m = lock_id_of j m' \<longleftrightarrow> m = m'"
  by (simp add: lock_id_of_def)

lemma update_entries:
  "AList.update (lock_id_of j m) m (map (\<lambda>x. (lock_id_of j x, x)) names) =
     map (\<lambda>x. (lock_id_of j x, x)) (if m \<in> set names then names else names @ [m])"
  by (induction names) auto

lemma check_lock_mapset_entries:
  assumes "lock_ids s = map (\<lambda>x. (lock_id_of j x, x)) (first_occurrences ns)"
    and "fst (check_lock_mapset c j m s) = Inr ()"
  shows "lock_ids (snd (check_lock_mapset c j m s)) =
           map (\<lambda>x. (lock_id_of j x, x)) (first_occurrences (ns @ [m]))"
  using assms
  by (simp add: check_lock_mapset_registry update_entries first_occurrences_snoc)

lemma lock_each_entries:
  "fst (lock_each c j ms s) = Inr () \<Longrightarrow>
   lock_ids s = map (\<lambda>x. (lock_id_of j x, x)) (first_occurrences ns) \<Longrightarrow>
     lock_ids (snd (lock_each c j ms s)) =
       map (\<lambda>x. (lock_id_of j x, x)) (first_occurrences (ns @ ms))"
proof (induction ms arbitrary: s ns)
  case Nil
  then show ?case by simp
next
  case (Cons m ms)
  obtain r s1 where clm: "check_lock_mapset c j m s = (r, s1)"
    by (cases "check_lock_mapset c j m s")
  have r: "r = Inr ()"
    using Cons.prems(1) clm by (cases r) simp_all
  then have ok: "fst (check_lock_mapset c j m s) = Inr ()"
    using clm by simp
  have rest: "fst (lock_each c j ms s1) = Inr ()"
    using Cons.prems(1) clm r by simp
  have reg: "lock_ids s1 = map (\<lambda>x. (lock_id_of j x, x)) (first_occurrences (ns @ [m]))"
    using check_lock_mapset_entries [OF Cons.prems(2) ok] clm by simp
  show ?case
    using Cons.IH [OF rest reg] clm r by simp
qed

lemma names_of_entries:
  assumes "distinct names"
  shows "map (\<lambda>k. the (map_of (map (\<lambda>x. (lock_id_of j x, x)) names) k))
           (map (lock_id_of j) names) = names"
proof -
  have d: "distinct (map fst (map (\<lambda>x. (lock_id_of j x, x)) names))"
    using assms by (simp add: distinct_map comp_def inj_on_def)
  have "\<And>m. m \<in> set names \<Longrightarrow>
      map_of (map (\<lambda>x. (lock_id_of j x, x)) names) (lock_id_of j m) = Some m"
    using d by (subst map_of_eq_Some_iff) auto
  then show ?thesis
    by (simp add: map_idI)
qed

lemma names_of_entries_take:
  assumes "distinct names"
  shows "map (\<lambda>k. the (map_of (map (\<lambda>x. (lock_id_of j x, x)) names) k))
           (take i (map (lock_id_of j) names)) = take i names"
proof -
  have "map (\<lambda>k. the (map_of (map (\<lambda>x. (lock_id_of j x, x)) names) k))
           (take i (map (lock_id_of j) names)) =
        take i (map (\<lambda>k. the (map_of (map (\<lambda>x. (lock_id_of j x, x)) names) k))
           (map (lock_id_of j) names))"
    by (simp only: take_map)
  then show ?thesis
    using names_of_entries [OF assms, of j] by simp
qed

lemma names_of_entries_nth:
  assumes "distinct names" and "i < length names"
  shows "the (map_of (map (\<lambda>x. (lock_id_of j x, x)) names)
           (map (lock_id_of j) names ! i)) = names ! i"
proof -
  have "map (\<lambda>k. the (map_of (map (\<lambda>x. (lock_id_of j x, x)) names) k))
           (map (lock_id_of j) names) ! i = names ! i"
    using names_of_entries [OF assms(1), of j] by simp
  then show ?thesis
    using assms(2) by simp
qed

subsection \<open>Extending the locks\<close>

lemma extend_locks_effect:
  "extend_locks c j m ks s = (r, s') \<Longrightarrow>
     lock_ids s' = lock_ids s \<and>
     lock_calls (history s') = lock_calls (history s) \<and>
     granted_locks (history s') = granted_locks (history s) \<and>
     unlock_calls (history s') = unlock_calls (history s) \<and>
     merge_calls (history s') = merge_calls (history s) \<and>
     polls (history s') = polls (history s) \<and>
     termination_signals (history s') = termination_signals (history s) \<and>
     cleanup_failures (history s') = cleanup_failures (history s) \<and>
     (r = Inr () \<longrightarrow> failed_extends (history s') = failed_extends (history s)) \<and>
     (failed_extends (history s') \<noteq> failed_extends (history s) \<longrightarrow>
        r = Inl (AsyncProcessError (extend_failed_message m)))"
proof (induction ks arbitrary: s)
  case Nil
  then show ?case by auto
next
  case (Cons k ks)
  show ?case
  proof (cases "lock_interface_extend c (history s) k (process_time_limit j * 2)")
    case (Inl e)
    then show ?thesis using Cons.prems by (auto simp: Let_def)
  next
    case (Inr ret)
    show ?thesis
    proof (cases "ret = 0")
      case True
      then show ?thesis using Cons.prems Inr by (auto simp: Let_def)
    next
      case False
      let ?s1 = "record_event (EvExtend k (process_time_limit j * 2) (Inr ret)) s"
      have "extend_locks c j m ks ?s1 = (r, s')"
        using Cons.prems Inr False by (simp add: Let_def)
      from Cons.IH [OF this] show ?thesis using False by simp
    qed
  qed
qed

lemma extend_locks_failures:
  "extend_locks c j m ks s = (r, s') \<Longrightarrow>
     (r = Inr () \<longrightarrow> failures (history s') = failures (history s)) \<and>
     (\<forall>e. r = Inl e \<longrightarrow>
        length (failures (history s')) = Suc (length (failures (history s))))"
proof (induction ks arbitrary: s)
  case Nil
  then show ?case by auto
next
  case (Cons k ks)
  show ?case
  proof (cases "lock_interface_extend c (history s) k (process_time_limit j * 2)")
    case (Inl e)
    then show ?thesis using Cons.prems by (auto simp: Let_def)
  next
    case (Inr ret)
    show ?thesis
    proof (cases "ret = 0")
      case True
      then show ?thesis using Cons.prems Inr by (auto simp: Let_def)
    next
      case False
      let ?s1 = "record_event (EvExtend k (process_time_limit j * 2) (Inr ret)) s"
      have "extend_locks c j m ks ?s1 = (r, s')"
        using Cons.prems Inr False by (simp add: Let_def)
      from Cons.IH [OF this] show ?thesis using False by simp
    qed
  qed
qed

lemma extend_locks_grows:
  "\<exists>new. history (snd (extend_locks c j m ks s)) = history s @ new"
proof (induction ks arbitrary: s)
  case Nil
  then show ?case by simp
next
  case (Cons k ks)
  let ?r = "lock_interface_extend c (history s) k (process_time_limit j * 2)"
  let ?s1 = "record_event (EvExtend k (process_time_limit j * 2) ?r) s"
  obtain n where "history (snd (extend_locks c j m ks ?s1)) = history ?s1 @ n"
    using Cons.IH [of ?s1] by auto
  then show ?case
    by (auto simp: Let_def split: sum.splits)
qed

subsection \<open>One iteration of the loop\<close>

text \<open>The paths through one iteration, each with the state it leaves.\<close>

lemma merge_step_cases:
  fixes c j n k v s
  defines "polled \<equiv> record_event (EvGetTermination (user_id j) (resource_id j) (Inr False)) s"
  assumes "merge_step c j n k v s = (r, v', s')"
  obtains
    (poll_raised) e where
      "s' = record_event (EvGetTermination (user_id j) (resource_id j) (Inl e)) s"
      "r = Some e" "v' = v"
      "get_termination c (history s) (user_id j) (resource_id j) = Inl e"
  | (terminated)
      "s' = record_event (EvGetTermination (user_id j) (resource_id j) (Inr True)) s"
      "r = Some (AsyncProcessTermination (termination_message (step v) n))" "v' = v"
      "get_termination c (history s) (user_id j) (resource_id j) = Inr True"
  | (key_error)
      "s' = polled"
      "map_of (lock_ids s) k = None" "r = Some (KeyError k)" "v' = v"
      "get_termination c (history s) (user_id j) (resource_id j) = Inr False"
  | (extend_raised) m e where
      "map_of (lock_ids s) k = Some m"
      "extend_locks c j m (map fst (lock_ids s)) polled = (Inl e, s')"
      "r = Some e" "step v' = step v"
      "get_termination c (history s) (user_id j) (resource_id j) = Inr False"
  | (update_raised) m s2 e where
      "map_of (lock_ids s) k = Some m"
      "extend_locks c j m (map fst (lock_ids s)) polled = (Inr (), s2)"
      "s' = record_event
              (EvSendResourceUpdate (step_message (step v) n m (target_mapset_name j)) (Inl e)) s2"
      "r = Some e" "step v' = step v"
      "get_termination c (history s) (user_id j) (resource_id j) = Inr False"
  | (log_raised) m s2 e where
      "map_of (lock_ids s) k = Some m"
      "extend_locks c j m (map fst (lock_ids s)) polled = (Inr (), s2)"
      "s' = record_event (EvLogInfo (step_message (step v) n m (target_mapset_name j)) (Inl e))
              (record_event
                (EvSendResourceUpdate (step_message (step v) n m (target_mapset_name j)) (Inr ()))
                s2)"
      "r = Some e" "step v' = step v"
      "get_termination c (history s) (user_id j) (resource_id j) = Inr False"
  | (skipped) m s2 where
      "map_of (lock_ids s) k = Some m" "m = target_mapset_name j"
      "extend_locks c j m (map fst (lock_ids s)) polled = (Inr (), s2)"
      "s' = record_event (EvLogInfo (step_message (step v) n m (target_mapset_name j)) (Inr ()))
              (record_event
                (EvSendResourceUpdate (step_message (step v) n m (target_mapset_name j)) (Inr ()))
                s2)"
      "r = None" "step v' = step v"
      "get_termination c (history s) (user_id j) (resource_id j) = Inr False"
  | (copied) m s2 r3 where
      "map_of (lock_ids s) k = Some m" "m \<noteq> target_mapset_name j"
      "extend_locks c j m (map fst (lock_ids s)) polled = (Inr (), s2)"
      "s' = record_event (EvMerge m (target_mapset_name j) r3)
              (record_event (EvLogInfo (step_message (step v) n m (target_mapset_name j)) (Inr ()))
                (record_event
                  (EvSendResourceUpdate (step_message (step v) n m (target_mapset_name j)) (Inr ()))
                  s2))"
      "r = (case r3 of Inl e \<Rightarrow> Some e | Inr u \<Rightarrow> None)" "step v' = Suc (step v)"
      "get_termination c (history s) (user_id j) (resource_id j) = Inr False"
      "r3 = merge_mapset_into_target c
              (history
                (record_event (EvLogInfo (step_message (step v) n m (target_mapset_name j)) (Inr ()))
                  (record_event
                    (EvSendResourceUpdate (step_message (step v) n m (target_mapset_name j))
                       (Inr ()))
                    s2)))
              m (target_mapset_name j)"
proof (cases "get_termination c (history s) (user_id j) (resource_id j)")
  case (Inl e)
  then have "s' = record_event (EvGetTermination (user_id j) (resource_id j) (Inl e)) s \<and>
             r = Some e \<and> v' = v"
    using assms by (auto simp: merge_step_def Let_def)
  then show ?thesis using poll_raised Inl by blast
next
  case (Inr flag)
  note poll = this
  show ?thesis
  proof (cases flag)
    case True
    then have "s' = record_event (EvGetTermination (user_id j) (resource_id j) (Inr True)) s \<and>
               r = Some (AsyncProcessTermination (termination_message (step v) n)) \<and> v' = v"
      using assms poll by (auto simp: merge_step_def Let_def)
    moreover have "get_termination c (history s) (user_id j) (resource_id j) = Inr True"
      using poll True by simp
    ultimately show ?thesis using terminated by blast
  next
    case False
    note not_terminated = this
    have poll': "get_termination c (history s) (user_id j) (resource_id j) = Inr False"
      using poll False by simp
    show ?thesis
    proof (cases "map_of (lock_ids s) k")
      case None
      then have "s' = polled \<and> r = Some (KeyError k) \<and> v' = v"
        using assms poll not_terminated by (auto simp: merge_step_def Let_def)
      then show ?thesis using key_error None poll' by blast
    next
      case (Some m)
      let ?message = "step_message (step v) n m (target_mapset_name j)"
      obtain re s2 where ext: "extend_locks c j m (map fst (lock_ids s)) polled = (re, s2)"
        by (cases "extend_locks c j m (map fst (lock_ids s)) polled")
      show ?thesis
      proof (cases re)
        case (Inl e)
        then have "s' = s2 \<and> r = Some e \<and> step v' = step v"
          using assms poll not_terminated Some ext by (auto simp: merge_step_def Let_def)
        then show ?thesis using extend_raised [of m e] Some ext Inl poll' by blast
      next
        case (Inr u)
        then have ext': "extend_locks c j m (map fst (lock_ids s)) polled = (Inr (), s2)"
          using ext by simp
        let ?r4 = "send_resource_update c (history s2) ?message"
        let ?s3 = "record_event (EvSendResourceUpdate ?message (Inr ())) s2"
        show ?thesis
        proof (cases ?r4)
          case (Inl e)
          then have "s' = record_event (EvSendResourceUpdate ?message (Inl e)) s2 \<and>
              r = Some e \<and> step v' = step v"
            using assms poll not_terminated Some ext' by (auto simp: merge_step_def Let_def)
          then show ?thesis using update_raised [of m s2 e] Some ext' poll' by blast
        next
          case (Inr u4)
          then have sent: "?r4 = Inr ()" by simp
          let ?r5 = "message_logger_info c (history ?s3) ?message"
          let ?s4 = "record_event (EvLogInfo ?message (Inr ())) ?s3"
          show ?thesis
          proof (cases ?r5)
            case (Inl e)
            then have "s' = record_event (EvLogInfo ?message (Inl e)) ?s3 \<and>
                r = Some e \<and> step v' = step v"
              using assms poll not_terminated Some ext' sent
              by (auto simp: merge_step_def Let_def)
            then show ?thesis using log_raised [of m s2 e] Some ext' poll' by blast
          next
            case (Inr u5)
            then have logged: "?r5 = Inr ()" by simp
            show ?thesis
            proof (cases "m = target_mapset_name j")
              case True
              then have "s' = ?s4 \<and> r = None \<and> step v' = step v"
                using assms poll not_terminated Some ext' sent logged
                by (auto simp: merge_step_def Let_def)
              then show ?thesis using skipped [of m s2] Some ext' True poll' by blast
            next
              case False
              let ?r3 = "merge_mapset_into_target c (history ?s4) m (target_mapset_name j)"
              have "s' = record_event (EvMerge m (target_mapset_name j) ?r3) ?s4
                 \<and> r = (case ?r3 of Inl e \<Rightarrow> Some e | Inr u \<Rightarrow> None)
                 \<and> step v' = Suc (step v)"
                using assms poll not_terminated Some ext' sent logged False
                by (auto simp: merge_step_def Let_def split: sum.splits)
              then show ?thesis using copied [of m s2 ?r3] Some ext' False poll' by blast
            qed
          qed
        qed
      qed
    qed
  qed
qed

lemma merge_step_frame:
  assumes "merge_step c j n k v s = (r, v', s')"
  shows "lock_ids s' = lock_ids s"
    and "lock_calls (history s') = lock_calls (history s)"
    and "granted_locks (history s') = granted_locks (history s)"
    and "unlock_calls (history s') = unlock_calls (history s)"
    and "length (polls (history s')) = Suc (length (polls (history s)))"
    and "length (merge_calls (history s')) + step v = length (merge_calls (history s)) + step v'"
    and "cleanup_failures (history s') = cleanup_failures (history s)"
  using assms
  by (cases rule: merge_step_cases; auto dest!: extend_locks_effect)+

lemma merge_step_None:
  assumes "merge_step c j n k v s = (None, v', s')"
  shows "\<exists>m. map_of (lock_ids s) k = Some m \<and>
           merge_calls (history s') = merge_calls (history s) @ copies (target_mapset_name j) [m]"
    and "failed_extends (history s') = failed_extends (history s)"
    and "termination_signals (history s') = termination_signals (history s)"
  using assms
  by (cases rule: merge_step_cases; auto simp: copies_def dest!: extend_locks_effect)+

lemma merge_step_failures:
  assumes "merge_step c j n k v s = (r, v', s')"
  shows "r = None \<Longrightarrow> failures (history s') = failures (history s)"
    and "r \<noteq> None \<Longrightarrow> map_of (lock_ids s) k \<noteq> None \<Longrightarrow>
           length (failures (history s')) = Suc (length (failures (history s)))"
proof -
  have "(r = None \<longrightarrow> failures (history s') = failures (history s)) \<and>
        (r \<noteq> None \<longrightarrow> map_of (lock_ids s) k \<noteq> None \<longrightarrow>
           length (failures (history s')) = Suc (length (failures (history s))))"
    using assms
  proof (cases rule: merge_step_cases)
    case (poll_raised e)
    then show ?thesis by simp
  next
    case terminated
    then show ?thesis by simp
  next
    case key_error
    then show ?thesis by simp
  next
    case (extend_raised m e)
    then show ?thesis using extend_locks_failures [OF extend_raised(2)] by simp
  next
    case (update_raised m s2 e)
    then show ?thesis using extend_locks_failures [OF update_raised(2)] by simp
  next
    case (log_raised m s2 e)
    then show ?thesis using extend_locks_failures [OF log_raised(2)] by simp
  next
    case (skipped m s2)
    then show ?thesis using extend_locks_failures [OF skipped(3)] by simp
  next
    case (copied m s2 r3)
    note ext = extend_locks_failures [OF copied(3)]
    show ?thesis
    proof (cases r3)
      case (Inl e)
      then show ?thesis using copied(4,5) ext by simp
    next
      case (Inr u)
      then show ?thesis using copied(4,5) ext by simp
    qed
  qed
  then show "r = None \<Longrightarrow> failures (history s') = failures (history s)"
    and "r \<noteq> None \<Longrightarrow> map_of (lock_ids s) k \<noteq> None \<Longrightarrow>
           length (failures (history s')) = Suc (length (failures (history s)))"
    by simp_all
qed

lemma merge_step_terminated:
  assumes "merge_step c j n k v s = (r, v', s')"
    and "termination_signals (history s') \<noteq> termination_signals (history s)"
  shows "r = Some (AsyncProcessTermination (termination_message (step v') n))"
    and "merge_calls (history s') = merge_calls (history s)"
  using assms
  by (cases rule: merge_step_cases; auto dest!: extend_locks_effect)+

lemma merge_step_lease_lost:
  assumes "merge_step c j n k v s = (r, v', s')"
    and "failed_extends (history s') \<noteq> failed_extends (history s)"
  shows "\<exists>m. map_of (lock_ids s) k = Some m \<and>
           r = Some (AsyncProcessError (extend_failed_message m))"
    and "merge_calls (history s') = merge_calls (history s)"
  using assms
  by (cases rule: merge_step_cases; auto dest!: extend_locks_effect)+

lemma merge_step_copies:
  assumes "merge_step c j n k v s = (r, v', s')"
  shows "\<exists>ms. merge_calls (history s') = merge_calls (history s) @ ms \<and>
           (\<forall>p \<in> set ms. fst p \<noteq> target_mapset_name j \<and> snd p = target_mapset_name j)"
  using assms
  by (cases rule: merge_step_cases; auto dest!: extend_locks_effect)

lemma merge_step_target:
  assumes "merge_step c j n k v s = (r, v', s')"
    and "map_of (lock_ids s) k = Some (target_mapset_name j)"
  shows "step v' = step v" and "merge_calls (history s') = merge_calls (history s)"
  using assms
  by (cases rule: merge_step_cases; auto dest!: extend_locks_effect)+

text \<open>A termination flag that is set stops the iteration before the copy.\<close>

lemma merge_step_flag:
  assumes "merge_step c j n k v s = (r, v', s')"
    and "get_termination c (history s) (user_id j) (resource_id j) = Inr True"
  shows "merge_calls (history s') = merge_calls (history s)" and "r \<noteq> None"
  using assms
  by (cases rule: merge_step_cases; auto)+

lemma merge_step_grows:
  assumes "merge_step c j n k v s = (r, v', s')"
  shows "\<exists>new. history s' = history s @ new"
  using assms
proof (cases rule: merge_step_cases)
  case (extend_raised m e)
  then show ?thesis
    using extend_locks_grows [of c j m "map fst (lock_ids s)"
        "record_event (EvGetTermination (user_id j) (resource_id j) (Inr False)) s"]
    by auto
next
  case (update_raised m s2 e)
  then show ?thesis
    using extend_locks_grows [of c j m "map fst (lock_ids s)"
        "record_event (EvGetTermination (user_id j) (resource_id j) (Inr False)) s"]
    by auto
next
  case (log_raised m s2 e)
  then show ?thesis
    using extend_locks_grows [of c j m "map fst (lock_ids s)"
        "record_event (EvGetTermination (user_id j) (resource_id j) (Inr False)) s"]
    by auto
next
  case (skipped m s2)
  then show ?thesis
    using extend_locks_grows [of c j m "map fst (lock_ids s)"
        "record_event (EvGetTermination (user_id j) (resource_id j) (Inr False)) s"]
    by auto
next
  case (copied m s2 r3)
  then show ?thesis
    using extend_locks_grows [of c j m "map fst (lock_ids s)"
        "record_event (EvGetTermination (user_id j) (resource_id j) (Inr False)) s"]
    by auto
qed auto

subsection \<open>The loop\<close>

lemma copies_Nil [simp]: "copies t [] = []"
  by (simp add: copies_def)

lemma copies_append [simp]: "copies t (xs @ ys) = copies t xs @ copies t ys"
  by (simp add: copies_def)

lemma copies_Cons [simp]:
  "copies t (x # xs) = (if x = t then copies t xs else (x, t) # copies t xs)"
  by (simp add: copies_def)

lemma length_copies_le: "length (copies t xs) \<le> length xs"
  by (simp add: copies_def)

lemma copies_others: "t \<notin> set xs \<Longrightarrow> copies t xs = map (\<lambda>m. (m, t)) xs"
  by (induction xs) auto

lemma fst_copies: "fst ` set (copies t xs) = set xs - {t}"
  by (induction xs) auto

lemma merge_loop_frame:
  "merge_loop c j n ks v s = (r, v', s') \<Longrightarrow>
     lock_ids s' = lock_ids s \<and>
     lock_calls (history s') = lock_calls (history s) \<and>
     granted_locks (history s') = granted_locks (history s) \<and>
     unlock_calls (history s') = unlock_calls (history s) \<and>
     cleanup_failures (history s') = cleanup_failures (history s) \<and>
     length (merge_calls (history s')) + step v = length (merge_calls (history s)) + step v'"
proof (induction ks arbitrary: v s)
  case Nil
  then show ?case by simp
next
  case (Cons k ks)
  obtain r1 v1 s1 where st: "merge_step c j n k v s = (r1, v1, s1)"
    by (cases "merge_step c j n k v s")
  note fr = merge_step_frame [OF st]
  show ?case
  proof (cases r1)
    case None
    then have "merge_loop c j n ks v1 s1 = (r, v', s')"
      using Cons.prems st by simp
    from Cons.IH [OF this] show ?thesis using fr by simp
  next
    case (Some e)
    then show ?thesis using Cons.prems st fr by simp
  qed
qed

lemma merge_loop_copies:
  "merge_loop c j n ks v s = (r, v', s') \<Longrightarrow>
     \<exists>ms. merge_calls (history s') = merge_calls (history s) @ ms \<and>
       (\<forall>p \<in> set ms. fst p \<noteq> target_mapset_name j \<and> snd p = target_mapset_name j)"
proof (induction ks arbitrary: v s)
  case Nil
  then show ?case by simp
next
  case (Cons k ks)
  obtain r1 v1 s1 where st: "merge_step c j n k v s = (r1, v1, s1)"
    by (cases "merge_step c j n k v s")
  obtain ms1 where ms1: "merge_calls (history s1) = merge_calls (history s) @ ms1"
    "\<forall>p \<in> set ms1. fst p \<noteq> target_mapset_name j \<and> snd p = target_mapset_name j"
    using merge_step_copies [OF st] by blast
  show ?case
  proof (cases r1)
    case None
    then have "merge_loop c j n ks v1 s1 = (r, v', s')"
      using Cons.prems st by simp
    from Cons.IH [OF this] obtain ms2 where
      "merge_calls (history s') = merge_calls (history s1) @ ms2"
      "\<forall>p \<in> set ms2. fst p \<noteq> target_mapset_name j \<and> snd p = target_mapset_name j"
      by blast
    then have "merge_calls (history s') = merge_calls (history s) @ (ms1 @ ms2) \<and>
       (\<forall>p \<in> set (ms1 @ ms2). fst p \<noteq> target_mapset_name j \<and> snd p = target_mapset_name j)"
      using ms1 by auto
    then show ?thesis by blast
  next
    case (Some e)
    then have "s' = s1" using Cons.prems st by simp
    then show ?thesis using ms1 by blast
  qed
qed

lemma merge_loop_terminated:
  "merge_loop c j n ks v s = (r, v', s') \<Longrightarrow>
   termination_signals (history s') \<noteq> termination_signals (history s) \<Longrightarrow>
     r = Some (AsyncProcessTermination (termination_message (step v') n))"
proof (induction ks arbitrary: v s)
  case Nil
  then show ?case by simp
next
  case (Cons k ks)
  obtain r1 v1 s1 where st: "merge_step c j n k v s = (r1, v1, s1)"
    by (cases "merge_step c j n k v s")
  show ?case
  proof (cases r1)
    case None
    then have loop: "merge_loop c j n ks v1 s1 = (r, v', s')"
      using Cons.prems st by simp
    have "termination_signals (history s1) = termination_signals (history s)"
      using merge_step_None(3) st None by simp
    then show ?thesis using Cons.IH [OF loop] Cons.prems(2) by simp
  next
    case (Some e)
    then have "s' = s1" "v' = v1" "r = r1" using Cons.prems st by simp_all
    then show ?thesis using merge_step_terminated(1) [OF st] Cons.prems(2) by simp
  qed
qed

lemma merge_loop_lease_lost:
  "merge_loop c j n ks v s = (r, v', s') \<Longrightarrow>
   failed_extends (history s') \<noteq> failed_extends (history s) \<Longrightarrow>
     \<exists>i < length ks.
       length (polls (history s')) = Suc i + length (polls (history s)) \<and>
       r = Some (AsyncProcessError
             (extend_failed_message (the (map_of (lock_ids s) (ks ! i))))) \<and>
       merge_calls (history s') =
         merge_calls (history s) @
           copies (target_mapset_name j) (map (\<lambda>k. the (map_of (lock_ids s) k)) (take i ks))"
proof (induction ks arbitrary: v s)
  case Nil
  then show ?case by simp
next
  case (Cons k ks)
  obtain r1 v1 s1 where st: "merge_step c j n k v s = (r1, v1, s1)"
    by (cases "merge_step c j n k v s")
  note fr = merge_step_frame [OF st]
  show ?case
  proof (cases r1)
    case None
    then have loop: "merge_loop c j n ks v1 s1 = (r, v', s')"
      using Cons.prems st by simp
    obtain m where m: "map_of (lock_ids s) k = Some m"
      "merge_calls (history s1) = merge_calls (history s) @ copies (target_mapset_name j) [m]"
      using merge_step_None(1) st None by blast
    have "failed_extends (history s1) = failed_extends (history s)"
      using merge_step_None(2) st None by simp
    then have "failed_extends (history s') \<noteq> failed_extends (history s1)"
      using Cons.prems(2) by simp
    from Cons.IH [OF loop this] obtain i where i: "i < length ks"
      "length (polls (history s')) = Suc i + length (polls (history s1))"
      "r = Some (AsyncProcessError
             (extend_failed_message (the (map_of (lock_ids s1) (ks ! i)))))"
      "merge_calls (history s') =
         merge_calls (history s1) @
           copies (target_mapset_name j) (map (\<lambda>k. the (map_of (lock_ids s1) k)) (take i ks))"
      by blast
    have "Suc i < length (k # ks)" using i(1) by simp
    moreover have "length (polls (history s')) = Suc (Suc i) + length (polls (history s))"
      using i(2) fr(5) by simp
    moreover have "r = Some (AsyncProcessError
             (extend_failed_message (the (map_of (lock_ids s) ((k # ks) ! Suc i)))))"
      using i(3) fr(1) by simp
    moreover have "merge_calls (history s') =
         merge_calls (history s) @
           copies (target_mapset_name j)
             (map (\<lambda>k. the (map_of (lock_ids s) k)) (take (Suc i) (k # ks)))"
      using i(4) m fr(1) by simp
    ultimately show ?thesis by blast
  next
    case (Some e)
    then have eq: "s' = s1" "v' = v1" "r = r1" using Cons.prems st by simp_all
    obtain m where "map_of (lock_ids s) k = Some m"
      "r1 = Some (AsyncProcessError (extend_failed_message m))"
      using merge_step_lease_lost(1) [OF st] Cons.prems(2) eq by blast
    moreover have "merge_calls (history s1) = merge_calls (history s)"
      using merge_step_lease_lost(2) [OF st] Cons.prems(2) eq by simp
    ultimately have "0 < length (k # ks) \<and>
       length (polls (history s')) = Suc 0 + length (polls (history s)) \<and>
       r = Some (AsyncProcessError
             (extend_failed_message (the (map_of (lock_ids s) ((k # ks) ! 0))))) \<and>
       merge_calls (history s') =
         merge_calls (history s) @
           copies (target_mapset_name j)
             (map (\<lambda>k. the (map_of (lock_ids s) k)) (take 0 (k # ks)))"
      using eq fr(5) by simp
    then show ?thesis by blast
  qed
qed

lemma merge_loop_terminated_at:
  "merge_loop c j n ks v s = (r, v', s') \<Longrightarrow>
   termination_signals (history s') \<noteq> termination_signals (history s) \<Longrightarrow>
     \<exists>i < length ks.
       merge_calls (history s') =
         merge_calls (history s) @
           copies (target_mapset_name j) (map (\<lambda>k. the (map_of (lock_ids s) k)) (take i ks))"
proof (induction ks arbitrary: v s)
  case Nil
  then show ?case by simp
next
  case (Cons k ks)
  obtain r1 v1 s1 where st: "merge_step c j n k v s = (r1, v1, s1)"
    by (cases "merge_step c j n k v s")
  note fr = merge_step_frame [OF st]
  show ?case
  proof (cases r1)
    case None
    then have loop: "merge_loop c j n ks v1 s1 = (r, v', s')"
      using Cons.prems st by simp
    obtain m where m: "map_of (lock_ids s) k = Some m"
      "merge_calls (history s1) = merge_calls (history s) @ copies (target_mapset_name j) [m]"
      using merge_step_None(1) st None by blast
    have "termination_signals (history s1) = termination_signals (history s)"
      using merge_step_None(3) st None by simp
    then have "termination_signals (history s') \<noteq> termination_signals (history s1)"
      using Cons.prems(2) by simp
    from Cons.IH [OF loop this] obtain i where i: "i < length ks"
      "merge_calls (history s') =
         merge_calls (history s1) @
           copies (target_mapset_name j) (map (\<lambda>k. the (map_of (lock_ids s1) k)) (take i ks))"
      by blast
    have "Suc i < length (k # ks)" using i(1) by simp
    moreover have "merge_calls (history s') =
         merge_calls (history s) @
           copies (target_mapset_name j)
             (map (\<lambda>k. the (map_of (lock_ids s) k)) (take (Suc i) (k # ks)))"
      using i(2) m fr(1) by simp
    ultimately show ?thesis by blast
  next
    case (Some e)
    then have eq: "s' = s1" "v' = v1" "r = r1" using Cons.prems st by simp_all
    have "merge_calls (history s1) = merge_calls (history s)"
      using merge_step_terminated(2) [OF st] Cons.prems(2) eq by simp
    then have "0 < length (k # ks) \<and>
       merge_calls (history s') =
         merge_calls (history s) @
           copies (target_mapset_name j)
             (map (\<lambda>k. the (map_of (lock_ids s) k)) (take 0 (k # ks)))"
      using eq by simp
    then show ?thesis by blast
  qed
qed

lemma merge_loop_grows:
  "merge_loop c j n ks v s = (r, v', s') \<Longrightarrow> \<exists>new. history s' = history s @ new"
proof (induction ks arbitrary: v s)
  case Nil
  then show ?case by simp
next
  case (Cons k ks)
  obtain r1 v1 s1 where st: "merge_step c j n k v s = (r1, v1, s1)"
    by (cases "merge_step c j n k v s")
  obtain n1 where n1: "history s1 = history s @ n1"
    using merge_step_grows [OF st] by blast
  show ?case
  proof (cases r1)
    case None
    then have "merge_loop c j n ks v1 s1 = (r, v', s')"
      using Cons.prems st by simp
    from Cons.IH [OF this] obtain n2 where "history s' = history s1 @ n2" by blast
    then show ?thesis using n1 by simp
  next
    case (Some e)
    then have "s' = s1" using Cons.prems st by simp
    then show ?thesis using n1 by simp
  qed
qed

lemma merge_loop_returned:
  "merge_loop c j n ks v s = (None, v', s') \<Longrightarrow>
     merge_calls (history s') =
       merge_calls (history s) @
         copies (target_mapset_name j) (map (\<lambda>k. the (map_of (lock_ids s) k)) ks) \<and>
     failures (history s') = failures (history s)"
proof (induction ks arbitrary: v s)
  case Nil
  then show ?case by simp
next
  case (Cons k ks)
  obtain r1 v1 s1 where st: "merge_step c j n k v s = (r1, v1, s1)"
    by (cases "merge_step c j n k v s")
  have r1: "r1 = None"
    using Cons.prems st by (cases r1) simp_all
  then have loop: "merge_loop c j n ks v1 s1 = (None, v', s')"
    using Cons.prems st by simp
  have reg: "lock_ids s1 = lock_ids s"
    using merge_step_frame(1) [OF st] .
  obtain m where m: "map_of (lock_ids s) k = Some m"
    "merge_calls (history s1) = merge_calls (history s) @ copies (target_mapset_name j) [m]"
    using merge_step_None(1) st r1 by blast
  have f: "failures (history s1) = failures (history s)"
    using merge_step_failures(1) [OF st] r1 by simp
  from Cons.IH [OF loop] show ?case
    using m reg f by simp
qed

lemma merge_loop_failed:
  "merge_loop c j n ks v s = (Some e, v', s') \<Longrightarrow>
   \<forall>k \<in> set ks. map_of (lock_ids s) k \<noteq> None \<Longrightarrow>
     length (failures (history s')) = Suc (length (failures (history s)))"
proof (induction ks arbitrary: v s)
  case Nil
  then show ?case by simp
next
  case (Cons k ks)
  obtain r1 v1 s1 where st: "merge_step c j n k v s = (r1, v1, s1)"
    by (cases "merge_step c j n k v s")
  have present: "map_of (lock_ids s) k \<noteq> None"
    using Cons.prems(2) by simp
  show ?case
  proof (cases r1)
    case None
    then have loop: "merge_loop c j n ks v1 s1 = (Some e, v', s')"
      using Cons.prems(1) st by simp
    have reg: "lock_ids s1 = lock_ids s"
      using merge_step_frame(1) [OF st] .
    have f: "failures (history s1) = failures (history s)"
      using merge_step_failures(1) [OF st] None by simp
    have "\<forall>k \<in> set ks. map_of (lock_ids s1) k \<noteq> None"
      using Cons.prems(2) reg by simp
    from Cons.IH [OF loop this] show ?thesis
      using f by simp
  next
    case (Some e1)
    then have "s' = s1"
      using Cons.prems(1) st by simp
    then show ?thesis
      using merge_step_failures(2) [OF st] Some present by simp
  qed
qed

text \<open>A termination flag that is set whenever \<open>n\<close> copies were made lets the loop make
  no more than \<open>n\<close> copies.\<close>

lemma merge_step_one_copy:
  assumes "merge_step c j n k v s = (r, v', s')"
  shows "length (merge_calls (history s')) \<le> Suc (length (merge_calls (history s)))"
  using assms
  by (cases rule: merge_step_cases; auto dest!: extend_locks_effect)

lemma merge_loop_flag:
  "merge_loop c j n ks v s = (r, v', s') \<Longrightarrow>
   \<forall>h. length (merge_calls h) = limit \<longrightarrow>
     get_termination c h (user_id j) (resource_id j) = Inr True \<Longrightarrow>
   length (merge_calls (history s)) \<le> limit \<Longrightarrow>
     length (merge_calls (history s')) \<le> limit"
proof (induction ks arbitrary: v s)
  case Nil
  then show ?case by simp
next
  case (Cons k ks)
  obtain r1 v1 s1 where st: "merge_step c j n k v s = (r1, v1, s1)"
    by (cases "merge_step c j n k v s")
  have bound: "length (merge_calls (history s1)) \<le> limit \<and>
      (length (merge_calls (history s)) = limit \<longrightarrow> r1 \<noteq> None)"
  proof (cases "length (merge_calls (history s)) = limit")
    case True
    then have "get_termination c (history s) (user_id j) (resource_id j) = Inr True"
      using Cons.prems(2) by simp
    from merge_step_flag [OF st this] show ?thesis
      using True by simp
  next
    case False
    then have "length (merge_calls (history s)) < limit"
      using Cons.prems(3) by simp
    then show ?thesis
      using merge_step_one_copy [OF st] False by simp
  qed
  show ?case
  proof (cases r1)
    case None
    then have loop: "merge_loop c j n ks v1 s1 = (r, v', s')"
      using Cons.prems(1) st by simp
    from Cons.IH [OF loop Cons.prems(2)] show ?thesis
      using bound by simp
  next
    case (Some e)
    then have "s' = s1"
      using Cons.prems(1) st by simp
    then show ?thesis using bound by simp
  qed
qed

subsection \<open>The cleanup\<close>

lemma unlock_each_returns:
  "\<forall>h k. \<exists>ret. lock_interface_unlock c h k = Inr ret \<Longrightarrow>
     fst (unlock_each c ks s) = Inr () \<and>
     lock_ids (snd (unlock_each c ks s)) = lock_ids s \<and>
     unlock_calls (history (snd (unlock_each c ks s))) = unlock_calls (history s) @ ks \<and>
     log_lines (history (snd (unlock_each c ks s))) = log_lines (history s) \<and>
     lock_calls (history (snd (unlock_each c ks s))) = lock_calls (history s) \<and>
     granted_locks (history (snd (unlock_each c ks s))) = granted_locks (history s) \<and>
     merge_calls (history (snd (unlock_each c ks s))) = merge_calls (history s) \<and>
     termination_signals (history (snd (unlock_each c ks s))) = termination_signals (history s)"
proof (induction ks arbitrary: s)
  case Nil
  then show ?case by simp
next
  case (Cons k ks)
  obtain ret where ret: "lock_interface_unlock c (history s) k = Inr ret"
    using Cons.prems by blast
  let ?s1 = "record_event (EvUnlock k (Inr ret)) s"
  have "unlock_each c (k # ks) s = unlock_each c ks ?s1"
    using ret by (simp add: Let_def)
  then show ?case
    using Cons.IH [OF Cons.prems, of ?s1] by simp
qed

lemma final_cleanup_returns:
  assumes "cleanup_returns c"
  shows "fst (final_cleanup c s) = Inr ()"
    and "lock_ids (snd (final_cleanup c s)) = lock_ids s"
    and "unlock_calls (history (snd (final_cleanup c s))) =
           unlock_calls (history s) @ map fst (lock_ids s)"
    and "log_lines (history (snd (final_cleanup c s))) = log_lines (history s)"
    and "lock_calls (history (snd (final_cleanup c s))) = lock_calls (history s)"
    and "granted_locks (history (snd (final_cleanup c s))) = granted_locks (history s)"
    and "merge_calls (history (snd (final_cleanup c s))) = merge_calls (history s)"
    and "termination_signals (history (snd (final_cleanup c s))) = termination_signals (history s)"
proof -
  have p: "parent_final_cleanup c (history s) = Inr ()"
    and u: "\<forall>h k. \<exists>ret. lock_interface_unlock c h k = Inr ret"
    using assms by (simp_all add: cleanup_returns_def)
  let ?s1 = "record_event (EvParentFinalCleanup (Inr ())) s"
  have eq: "final_cleanup c s = unlock_each c (map fst (lock_ids s)) ?s1"
    using p by (simp add: final_cleanup_def Let_def)
  note ue = unlock_each_returns [OF u, of "map fst (lock_ids s)" ?s1]
  show "fst (final_cleanup c s) = Inr ()"
    and "lock_ids (snd (final_cleanup c s)) = lock_ids s"
    and "unlock_calls (history (snd (final_cleanup c s))) =
           unlock_calls (history s) @ map fst (lock_ids s)"
    and "log_lines (history (snd (final_cleanup c s))) = log_lines (history s)"
    and "lock_calls (history (snd (final_cleanup c s))) = lock_calls (history s)"
    and "granted_locks (history (snd (final_cleanup c s))) = granted_locks (history s)"
    and "merge_calls (history (snd (final_cleanup c s))) = merge_calls (history s)"
    and "termination_signals (history (snd (final_cleanup c s))) = termination_signals (history s)"
    using ue by (simp_all add: eq)
qed

lemma cleanup_returns_unlock_failing: "cleanup_returns unlock_failing"
  by (simp add: cleanup_returns_def unlock_failing_def granting_def)

lemma unlock_each_frame:
  "lock_ids (snd (unlock_each c ks s)) = lock_ids s \<and>
   log_lines (history (snd (unlock_each c ks s))) = log_lines (history s) \<and>
   lock_calls (history (snd (unlock_each c ks s))) = lock_calls (history s) \<and>
   granted_locks (history (snd (unlock_each c ks s))) = granted_locks (history s) \<and>
   merge_calls (history (snd (unlock_each c ks s))) = merge_calls (history s) \<and>
   polls (history (snd (unlock_each c ks s))) = polls (history s) \<and>
   failed_extends (history (snd (unlock_each c ks s))) = failed_extends (history s) \<and>
   termination_signals (history (snd (unlock_each c ks s))) = termination_signals (history s) \<and>
   raised_logs (history (snd (unlock_each c ks s))) = raised_logs (history s) \<and>
   failures (history (snd (unlock_each c ks s))) = failures (history s)"
proof (induction ks arbitrary: s)
  case Nil
  then show ?case by simp
next
  case (Cons k ks)
  let ?r = "lock_interface_unlock c (history s) k"
  show ?case
    using Cons.IH [of "record_event (EvUnlock k ?r) s"]
    by (cases ?r) (simp_all add: Let_def)
qed

lemma final_cleanup_frame:
  "lock_ids (snd (final_cleanup c s)) = lock_ids s"
  "log_lines (history (snd (final_cleanup c s))) = log_lines (history s)"
  "lock_calls (history (snd (final_cleanup c s))) = lock_calls (history s)"
  "granted_locks (history (snd (final_cleanup c s))) = granted_locks (history s)"
  "merge_calls (history (snd (final_cleanup c s))) = merge_calls (history s)"
  "polls (history (snd (final_cleanup c s))) = polls (history s)"
  "failed_extends (history (snd (final_cleanup c s))) = failed_extends (history s)"
  "termination_signals (history (snd (final_cleanup c s))) = termination_signals (history s)"
  "raised_logs (history (snd (final_cleanup c s))) = raised_logs (history s)"
  "failures (history (snd (final_cleanup c s))) = failures (history s)"
  using unlock_each_frame [of c "map fst (lock_ids s)"
      "record_event (EvParentFinalCleanup (parent_final_cleanup c (history s))) s"]
  by (cases "parent_final_cleanup c (history s)"; simp add: final_cleanup_def Let_def)+

text \<open>A cleanup none of whose calls raised has unlocked every key of the registry.\<close>

lemma unlock_each_unraised:
  "cleanup_failures (history (snd (unlock_each c ks s))) = cleanup_failures (history s) \<Longrightarrow>
     unlock_calls (history (snd (unlock_each c ks s))) = unlock_calls (history s) @ ks"
proof (induction ks arbitrary: s)
  case Nil
  then show ?case by simp
next
  case (Cons k ks)
  let ?r = "lock_interface_unlock c (history s) k"
  let ?s1 = "record_event (EvUnlock k ?r) s"
  show ?case
  proof (cases ?r)
    case (Inl e)
    then show ?thesis using Cons.prems by (simp add: Let_def)
  next
    case (Inr ret)
    then have eq: "unlock_each c (k # ks) s = unlock_each c ks ?s1"
      by (simp add: Let_def)
    have "cleanup_failures (history ?s1) = cleanup_failures (history s)"
      using Inr by simp
    then have "cleanup_failures (history (snd (unlock_each c ks ?s1))) =
        cleanup_failures (history ?s1)"
      using Cons.prems eq by simp
    from Cons.IH [OF this] show ?thesis
      using eq by simp
  qed
qed

lemma final_cleanup_unraised:
  assumes "cleanup_failures (history (snd (final_cleanup c s))) = cleanup_failures (history s)"
  shows "unlock_calls (history (snd (final_cleanup c s))) =
           unlock_calls (history s) @ map fst (lock_ids s)"
proof (cases "parent_final_cleanup c (history s)")
  case (Inl e)
  then show ?thesis using assms by (simp add: final_cleanup_def Let_def)
next
  case (Inr u)
  let ?s1 = "record_event (EvParentFinalCleanup (Inr u)) s"
  have eq: "final_cleanup c s = unlock_each c (map fst (lock_ids s)) ?s1"
    using Inr by (simp add: final_cleanup_def Let_def)
  have "cleanup_failures (history (snd (unlock_each c (map fst (lock_ids s)) ?s1))) =
      cleanup_failures (history ?s1)"
    using assms eq by simp
  from unlock_each_unraised [OF this] show ?thesis
    using eq by simp
qed

subsection \<open>The paths through \<^verbatim>\<open>_merge_mapsets\<close>\<close>

lemma merge_mapsets_cases:
  fixes c j s
  defines "s1 \<equiv> snd (check_lock_mapset c j (target_mapset_name j) s)"
  defines "s2 \<equiv> snd (lock_each c j (request_data j) s1)"
  obtains
    (target_failed) e where
      "fst (check_lock_mapset c j (target_mapset_name j) s) = Inl e"
      "merge_mapsets c j s = (Inl e, s1)"
  | (no_sources)
      "fst (check_lock_mapset c j (target_mapset_name j) s) = Inr ()"
      "request_data j = []"
      "merge_mapsets c j s = (Inl (AsyncProcessError ''Empty source mapset list.''), s1)"
  | (source_failed) e where
      "fst (check_lock_mapset c j (target_mapset_name j) s) = Inr ()"
      "request_data j \<noteq> []"
      "fst (lock_each c j (request_data j) s1) = Inl e"
      "merge_mapsets c j s = (Inl e, s2)"
  | (looped) r v' s3 where
      "fst (check_lock_mapset c j (target_mapset_name j) s) = Inr ()"
      "request_data j \<noteq> []"
      "fst (lock_each c j (request_data j) s1) = Inr ()"
      "merge_loop c j (length (request_data j)) (map fst (lock_ids s2)) loop_entry s2 = (r, v', s3)"
      "merge_mapsets c j s = (case r of Some e \<Rightarrow> Inl e | None \<Rightarrow> Inr (), s3)"
proof (cases "fst (check_lock_mapset c j (target_mapset_name j) s)")
  case (Inl e)
  then have "check_lock_mapset c j (target_mapset_name j) s = (Inl e, s1)"
    by (simp add: s1_def prod_eq_iff)
  then have "merge_mapsets c j s = (Inl e, s1)"
    by (simp add: merge_mapsets_def)
  then show ?thesis using target_failed Inl by blast
next
  case (Inr u)
  then have ok: "fst (check_lock_mapset c j (target_mapset_name j) s) = Inr ()"
    by simp
  then have clm: "check_lock_mapset c j (target_mapset_name j) s = (Inr (), s1)"
    by (simp add: s1_def prod_eq_iff)
  show ?thesis
  proof (cases "request_data j = []")
    case True
    then have "merge_mapsets c j s = (Inl (AsyncProcessError ''Empty source mapset list.''), s1)"
      using clm by (simp add: merge_mapsets_def check_lock_source_mapsets_def)
    then show ?thesis using no_sources ok True by blast
  next
    case False
    then have src: "check_lock_source_mapsets c j (request_data j) s1 =
        lock_each c j (request_data j) s1"
      by (simp add: check_lock_source_mapsets_def)
    show ?thesis
    proof (cases "fst (lock_each c j (request_data j) s1)")
      case (Inl e)
      then have "lock_each c j (request_data j) s1 = (Inl e, s2)"
        by (simp add: s2_def prod_eq_iff)
      then have "merge_mapsets c j s = (Inl e, s2)"
        using clm src by (simp add: merge_mapsets_def)
      then show ?thesis using source_failed ok False Inl by blast
    next
      case (Inr u2)
      then have le: "lock_each c j (request_data j) s1 = (Inr (), s2)"
        by (simp add: s2_def prod_eq_iff)
      obtain r v' s3 where loop:
        "merge_loop c j (length (request_data j)) (map fst (lock_ids s2)) loop_entry s2 = (r, v', s3)"
        by (cases "merge_loop c j (length (request_data j)) (map fst (lock_ids s2)) loop_entry s2")
      have "merge_mapsets c j s = (case r of Some e \<Rightarrow> Inl e | None \<Rightarrow> Inr (), s3)"
        using clm src le loop by (simp add: merge_mapsets_def split: option.splits)
      then show ?thesis using looped [of r v' s3] ok False le loop by simp
    qed
  qed
qed

subsection \<open>The whole method\<close>

lemma merge_mapsets_grows: "\<exists>new. history (snd (merge_mapsets c j s)) = history s @ new"
proof -
  let ?s1 = "snd (check_lock_mapset c j (target_mapset_name j) s)"
  let ?s2 = "snd (lock_each c j (request_data j) ?s1)"
  obtain n1 where n1: "history ?s1 = history s @ n1"
    using check_lock_mapset_grows by blast
  obtain n2 where n2: "history ?s2 = history ?s1 @ n2"
    using lock_each_grows by blast
  show ?thesis
  proof (cases rule: merge_mapsets_cases [of c j s])
    case (target_failed e)
    then show ?thesis using n1 by simp
  next
    case no_sources
    then show ?thesis using n1 by simp
  next
    case (source_failed e)
    then show ?thesis using n1 n2 by simp
  next
    case (looped r v' s3)
    obtain n3 where "history s3 = history ?s2 @ n3"
      using merge_loop_grows [OF looped(4)] by blast
    then show ?thesis using n1 n2 looped(5) by simp
  qed
qed

lemma merge_mapsets_grows_from_target:
  "\<exists>more. history (snd (merge_mapsets c j s)) =
     history (snd (check_lock_mapset c j (target_mapset_name j) s)) @ more"
proof (cases rule: merge_mapsets_cases [of c j s])
  case (target_failed e)
  then show ?thesis by simp
next
  case no_sources
  then show ?thesis by simp
next
  case (source_failed e)
  then show ?thesis
    using lock_each_grows [of c j "request_data j"
        "snd (check_lock_mapset c j (target_mapset_name j) s)"] by simp
next
  case (looped r v' s3)
  obtain n1 where "history (snd (lock_each c j (request_data j)
        (snd (check_lock_mapset c j (target_mapset_name j) s)))) =
      history (snd (check_lock_mapset c j (target_mapset_name j) s)) @ n1"
    using lock_each_grows by blast
  moreover obtain n2 where "history s3 = history (snd (lock_each c j (request_data j)
        (snd (check_lock_mapset c j (target_mapset_name j) s)))) @ n2"
    using merge_loop_grows [OF looped(4)] by blast
  ultimately show ?thesis using looped(5) by simp
qed

lemma merge_mapsets_keys:
  assumes "map fst (lock_ids s) = first_occurrences (granted_locks (history s))"
    and "raised_logs (history (snd (merge_mapsets c j s))) = raised_logs (history s)"
  shows "map fst (lock_ids (snd (merge_mapsets c j s))) =
           first_occurrences (granted_locks (history (snd (merge_mapsets c j s))))"
proof -
  let ?s1 = "snd (check_lock_mapset c j (target_mapset_name j) s)"
  let ?s2 = "snd (lock_each c j (request_data j) ?s1)"
  obtain n1 where n1: "history ?s1 = history s @ n1"
    using check_lock_mapset_grows by blast
  obtain n2 where n2: "history ?s2 = history ?s1 @ n2"
    using lock_each_grows by blast
  show ?thesis
  proof (cases rule: merge_mapsets_cases [of c j s])
    case (target_failed e)
    then have "raised_logs (history ?s1) = raised_logs (history s)"
      using assms(2) by simp
    from check_lock_mapset_keys [OF assms(1) this] show ?thesis
      using target_failed by simp
  next
    case no_sources
    then have "raised_logs (history ?s1) = raised_logs (history s)"
      using assms(2) by simp
    from check_lock_mapset_keys [OF assms(1) this] show ?thesis
      using no_sources by simp
  next
    case (source_failed e)
    then have "raised_logs n1 @ raised_logs n2 = []"
      using assms(2) n1 n2 by simp
    then have r1: "raised_logs (history ?s1) = raised_logs (history s)"
      and r2: "raised_logs (history ?s2) = raised_logs (history ?s1)"
      using n1 n2 by simp_all
    from lock_each_keys [OF check_lock_mapset_keys [OF assms(1) r1] r2] show ?thesis
      using source_failed by simp
  next
    case (looped r v' s3)
    obtain n3 where n3: "history s3 = history ?s2 @ n3"
      using merge_loop_grows [OF looped(4)] by blast
    have "raised_logs n1 @ raised_logs n2 @ raised_logs n3 = []"
      using assms(2) n1 n2 n3 looped(5) by simp
    then have r1: "raised_logs (history ?s1) = raised_logs (history s)"
      and r2: "raised_logs (history ?s2) = raised_logs (history ?s1)"
      using n1 n2 by simp_all
    from lock_each_keys [OF check_lock_mapset_keys [OF assms(1) r1] r2] show ?thesis
      using looped(5) merge_loop_frame [OF looped(4)] by simp
  qed
qed

lemma merge_mapsets_frame:
  "unlock_calls (history (snd (merge_mapsets c j s))) = unlock_calls (history s)"
  "cleanup_failures (history (snd (merge_mapsets c j s))) = cleanup_failures (history s)"
proof -
  have "unlock_calls (history (snd (merge_mapsets c j s))) = unlock_calls (history s) \<and>
      cleanup_failures (history (snd (merge_mapsets c j s))) = cleanup_failures (history s)"
  proof (cases rule: merge_mapsets_cases [of c j s])
    case (target_failed e)
    then show ?thesis by (simp add: check_lock_mapset_trace)
  next
    case no_sources
    then show ?thesis by (simp add: check_lock_mapset_trace)
  next
    case (source_failed e)
    then show ?thesis by (simp add: check_lock_mapset_trace lock_each_trace)
  next
    case (looped r v' s3)
    then show ?thesis
      using merge_loop_frame [OF looped(4)]
      by (simp add: check_lock_mapset_trace lock_each_trace)
  qed
  then show "unlock_calls (history (snd (merge_mapsets c j s))) = unlock_calls (history s)"
    and "cleanup_failures (history (snd (merge_mapsets c j s))) = cleanup_failures (history s)"
    by simp_all
qed

lemma merge_mapsets_copies:
  "\<exists>ms. merge_calls (history (snd (merge_mapsets c j s))) = merge_calls (history s) @ ms \<and>
     (\<forall>p \<in> set ms. fst p \<noteq> target_mapset_name j \<and> snd p = target_mapset_name j)"
proof (cases rule: merge_mapsets_cases [of c j s])
  case (target_failed e)
  then show ?thesis by (simp add: check_lock_mapset_trace)
next
  case no_sources
  then show ?thesis by (simp add: check_lock_mapset_trace)
next
  case (source_failed e)
  then show ?thesis by (simp add: check_lock_mapset_trace lock_each_trace)
next
  case (looped r v' s3)
  then show ?thesis
    using merge_loop_copies [OF looped(4)] by (simp add: check_lock_mapset_trace lock_each_trace)
qed

lemma merge_mapsets_terminated:
  assumes "termination_signals (history (snd (merge_mapsets c j s))) \<noteq>
             termination_signals (history s)"
  shows "\<exists>k. fst (merge_mapsets c j s) =
             Inl (AsyncProcessTermination (termination_message k (length (request_data j)))) \<and>
           length (merge_calls (history (snd (merge_mapsets c j s)))) + 1 =
             length (merge_calls (history s)) + k"
    and "granted_locks (history (snd (merge_mapsets c j s))) =
           granted_locks (history s) @
             map (lock_id_of j) (target_mapset_name j # request_data j)"
proof -
  let ?s1 = "snd (check_lock_mapset c j (target_mapset_name j) s)"
  let ?s2 = "snd (lock_each c j (request_data j) ?s1)"
  have both: "(\<exists>k. fst (merge_mapsets c j s) =
             Inl (AsyncProcessTermination (termination_message k (length (request_data j)))) \<and>
           length (merge_calls (history (snd (merge_mapsets c j s)))) + 1 =
             length (merge_calls (history s)) + k) \<and>
         granted_locks (history (snd (merge_mapsets c j s))) =
           granted_locks (history s) @
             map (lock_id_of j) (target_mapset_name j # request_data j)"
  proof (cases rule: merge_mapsets_cases [of c j s])
    case (target_failed e)
    then show ?thesis using assms by (simp add: check_lock_mapset_trace)
  next
    case no_sources
    then show ?thesis using assms by (simp add: check_lock_mapset_trace)
  next
    case (source_failed e)
    then show ?thesis using assms by (simp add: check_lock_mapset_trace lock_each_trace)
  next
    case (looped r v' s3)
    have sig: "termination_signals (history s3) \<noteq> termination_signals (history ?s2)"
      using assms looped(5) by (simp add: check_lock_mapset_trace lock_each_trace)
    have r: "r = Some (AsyncProcessTermination
                 (termination_message (step v') (length (request_data j))))"
      using merge_loop_terminated [OF looped(4) sig] .
    have fr: "granted_locks (history s3) = granted_locks (history ?s2)"
      "length (merge_calls (history s3)) + step loop_entry =
         length (merge_calls (history ?s2)) + step v'"
      using merge_loop_frame [OF looped(4)] by simp_all
    have g1: "granted_locks (history ?s1) = granted_locks (history s) @
        [lock_id_of j (target_mapset_name j)]"
      using check_lock_mapset_returned(1) [OF looped(1)] .
    have g2: "granted_locks (history ?s2) =
        granted_locks (history ?s1) @ map (lock_id_of j) (request_data j)"
      using lock_each_returned [OF looped(3)] by simp
    show ?thesis
      using r fr g1 g2 looped(5)
      by (simp add: check_lock_mapset_trace lock_each_trace loop_entry_def)
  qed
  show "\<exists>k. fst (merge_mapsets c j s) =
             Inl (AsyncProcessTermination (termination_message k (length (request_data j)))) \<and>
           length (merge_calls (history (snd (merge_mapsets c j s)))) + 1 =
             length (merge_calls (history s)) + k"
    and "granted_locks (history (snd (merge_mapsets c j s))) =
           granted_locks (history s) @
             map (lock_id_of j) (target_mapset_name j # request_data j)"
    using both by simp_all
qed

lemma locked_registry:
  assumes "lock_ids s = []"
    and "fst (check_lock_mapset c j (target_mapset_name j) s) = Inr ()"
    and "fst (lock_each c j (request_data j)
               (snd (check_lock_mapset c j (target_mapset_name j) s))) = Inr ()"
  shows "lock_ids (snd (lock_each c j (request_data j)
               (snd (check_lock_mapset c j (target_mapset_name j) s)))) =
           map (\<lambda>x. (lock_id_of j x, x))
             (first_occurrences (target_mapset_name j # request_data j))"
proof -
  have "lock_ids s = map (\<lambda>x. (lock_id_of j x, x)) (first_occurrences [])"
    using assms(1) by simp
  from check_lock_mapset_entries [OF this assms(2)]
  have "lock_ids (snd (check_lock_mapset c j (target_mapset_name j) s)) =
      map (\<lambda>x. (lock_id_of j x, x)) (first_occurrences [target_mapset_name j])"
    by simp
  from lock_each_entries [OF assms(3) this] show ?thesis by simp
qed

lemma merge_mapsets_lease_lost:
  assumes "lock_ids s = []"
    and "failed_extends (history (snd (merge_mapsets c j s))) \<noteq> failed_extends (history s)"
  shows "\<exists>i < length (first_occurrences (target_mapset_name j # request_data j)).
           length (polls (history (snd (merge_mapsets c j s)))) =
             Suc i + length (polls (history s)) \<and>
           fst (merge_mapsets c j s) =
             Inl (AsyncProcessError (extend_failed_message
               (first_occurrences (target_mapset_name j # request_data j) ! i))) \<and>
           merge_calls (history (snd (merge_mapsets c j s))) =
             merge_calls (history s) @
               copies (target_mapset_name j)
                 (take i (first_occurrences (target_mapset_name j # request_data j)))"
proof (cases rule: merge_mapsets_cases [of c j s])
  case (target_failed e)
  then show ?thesis using assms(2) by (simp add: check_lock_mapset_trace)
next
  case no_sources
  then show ?thesis using assms(2) by (simp add: check_lock_mapset_trace)
next
  case (source_failed e)
  then show ?thesis using assms(2) by (simp add: check_lock_mapset_trace lock_each_trace)
next
  case (looped r v' s3)
  let ?names = "first_occurrences (target_mapset_name j # request_data j)"
  let ?s1 = "snd (check_lock_mapset c j (target_mapset_name j) s)"
  let ?s2 = "snd (lock_each c j (request_data j) ?s1)"
  have reg: "lock_ids ?s2 = map (\<lambda>x. (lock_id_of j x, x)) ?names"
    using locked_registry [OF assms(1) looped(1) looped(3)] .
  have keys: "map fst (lock_ids ?s2) = map (lock_id_of j) ?names"
    by (simp add: reg comp_def)
  have loop: "merge_loop c j (length (request_data j)) (map (lock_id_of j) ?names)
      loop_entry ?s2 = (r, v', s3)"
    using looped(4) keys by simp
  have fe: "failed_extends (history s3) \<noteq> failed_extends (history ?s2)"
    using assms(2) looped(5) by (simp add: check_lock_mapset_trace lock_each_trace)
  from merge_loop_lease_lost [OF loop fe] obtain i where i:
    "i < length ?names"
    "length (polls (history s3)) = Suc i + length (polls (history ?s2))"
    "r = Some (AsyncProcessError (extend_failed_message
           (the (map_of (lock_ids ?s2) (map (lock_id_of j) ?names ! i)))))"
    "merge_calls (history s3) = merge_calls (history ?s2) @
       copies (target_mapset_name j)
         (map (\<lambda>k. the (map_of (lock_ids ?s2) k)) (take i (map (lock_id_of j) ?names)))"
    by auto
  have d: "distinct ?names" by simp
  have n1: "the (map_of (lock_ids ?s2) (map (lock_id_of j) ?names ! i)) = ?names ! i"
    using names_of_entries_nth [OF d i(1), of j] by (simp only: reg)
  have n2: "map (\<lambda>k. the (map_of (lock_ids ?s2) k)) (take i (map (lock_id_of j) ?names)) =
      take i ?names"
    using names_of_entries_take [OF d, of j i] by (simp only: reg)
  have "length (polls (history (snd (merge_mapsets c j s)))) =
             Suc i + length (polls (history s)) \<and>
           fst (merge_mapsets c j s) =
             Inl (AsyncProcessError (extend_failed_message (?names ! i))) \<and>
           merge_calls (history (snd (merge_mapsets c j s))) =
             merge_calls (history s) @ copies (target_mapset_name j) (take i ?names)"
    using i(2,3,4) looped(5)
    by (simp only: n1 n2) (simp add: check_lock_mapset_trace lock_each_trace)
  then show ?thesis using i(1) by blast
qed

lemma merge_mapsets_terminated_at:
  assumes "lock_ids s = []"
    and "termination_signals (history (snd (merge_mapsets c j s))) \<noteq>
           termination_signals (history s)"
  shows "length (merge_calls (history (snd (merge_mapsets c j s)))) + 1 \<le>
           length (merge_calls (history s)) + length (request_data j)"
proof (cases rule: merge_mapsets_cases [of c j s])
  case (target_failed e)
  then show ?thesis using assms(2) by (simp add: check_lock_mapset_trace)
next
  case no_sources
  then show ?thesis using assms(2) by (simp add: check_lock_mapset_trace)
next
  case (source_failed e)
  then show ?thesis using assms(2) by (simp add: check_lock_mapset_trace lock_each_trace)
next
  case (looped r v' s3)
  let ?t = "target_mapset_name j"
  let ?rest = "first_occurrences (filter (\<lambda>y. y \<noteq> ?t) (request_data j))"
  let ?names = "first_occurrences (?t # request_data j)"
  let ?s1 = "snd (check_lock_mapset c j ?t s)"
  let ?s2 = "snd (lock_each c j (request_data j) ?s1)"
  have names: "?names = ?t # ?rest"
    by (rule first_occurrences_Cons)
  have reg: "lock_ids ?s2 = map (\<lambda>x. (lock_id_of j x, x)) ?names"
    using locked_registry [OF assms(1) looped(1) looped(3)] .
  have keys: "map fst (lock_ids ?s2) = map (lock_id_of j) ?names"
    by (simp add: reg comp_def)
  have loop: "merge_loop c j (length (request_data j)) (map (lock_id_of j) ?names)
      loop_entry ?s2 = (r, v', s3)"
    using looped(4) keys by simp
  have sig: "termination_signals (history s3) \<noteq> termination_signals (history ?s2)"
    using assms(2) looped(5) by (simp add: check_lock_mapset_trace lock_each_trace)
  from merge_loop_terminated_at [OF loop sig] obtain i where i:
    "i < length ?names"
    "merge_calls (history s3) = merge_calls (history ?s2) @
       copies ?t (map (\<lambda>k. the (map_of (lock_ids ?s2) k)) (take i (map (lock_id_of j) ?names)))"
    by auto
  have d: "distinct ?names" by simp
  have n2: "map (\<lambda>k. the (map_of (lock_ids ?s2) k)) (take i (map (lock_id_of j) ?names)) =
      take i ?names"
    using names_of_entries_take [OF d, of j i] by (simp only: reg)
  have m3: "merge_calls (history s3) = merge_calls (history s) @ copies ?t (take i ?names)"
    using i(2) by (simp only: n2) (simp add: check_lock_mapset_trace lock_each_trace)
  have rest_le: "length ?rest \<le> length (request_data j)"
    using length_first_occurrences_le [of "filter (\<lambda>y. y \<noteq> ?t) (request_data j)"]
      length_filter_le [of "\<lambda>y. y \<noteq> ?t" "request_data j"] by linarith
  have pos: "Suc 0 \<le> length (request_data j)"
    using looped(2) by (cases "request_data j") simp_all
  have "length (copies ?t (take i ?names)) + 1 \<le> length (request_data j)"
  proof (cases i)
    case 0
    then show ?thesis using pos by simp
  next
    case (Suc i')
    then have lt: "i' < length ?rest"
      using i(1) names by simp
    have "copies ?t (take i ?names) = copies ?t (take i' ?rest)"
      using Suc names by simp
    moreover have "length (copies ?t (take i' ?rest)) \<le> i'"
      using length_copies_le [of ?t "take i' ?rest"] by simp
    ultimately have "length (copies ?t (take i ?names)) \<le> i'"
      by simp
    then show ?thesis using lt rest_le by linarith
  qed
  then show ?thesis using m3 looped(5) by simp
qed

text \<open>What a method that returned has done, started with an empty registry.\<close>

lemma merge_mapsets_returned:
  assumes "fst (merge_mapsets c j s) = Inr ()" and "lock_ids s = []"
  shows "request_data j \<noteq> []"
    and "lock_calls (history (snd (merge_mapsets c j s))) =
           lock_calls (history s) @ map (lock_id_of j) (target_mapset_name j # request_data j)"
    and "granted_locks (history (snd (merge_mapsets c j s))) =
           granted_locks (history s) @ map (lock_id_of j) (target_mapset_name j # request_data j)"
    and "merge_calls (history (snd (merge_mapsets c j s))) =
           merge_calls (history s) @
             copies (target_mapset_name j)
               (first_occurrences (target_mapset_name j # request_data j))"
    and "lock_ids (snd (merge_mapsets c j s)) =
           map (\<lambda>x. (lock_id_of j x, x))
             (first_occurrences (target_mapset_name j # request_data j))"
    and "failures (history (snd (merge_mapsets c j s))) = failures (history s)"
proof -
  let ?t = "target_mapset_name j"
  let ?names = "first_occurrences (?t # request_data j)"
  let ?s1 = "snd (check_lock_mapset c j ?t s)"
  let ?s2 = "snd (lock_each c j (request_data j) ?s1)"
  have all: "request_data j \<noteq> [] \<and>
     lock_calls (history (snd (merge_mapsets c j s))) =
           lock_calls (history s) @ map (lock_id_of j) (?t # request_data j) \<and>
     granted_locks (history (snd (merge_mapsets c j s))) =
           granted_locks (history s) @ map (lock_id_of j) (?t # request_data j) \<and>
     merge_calls (history (snd (merge_mapsets c j s))) =
           merge_calls (history s) @ copies ?t ?names \<and>
     lock_ids (snd (merge_mapsets c j s)) = map (\<lambda>x. (lock_id_of j x, x)) ?names \<and>
     failures (history (snd (merge_mapsets c j s))) = failures (history s)"
  proof (cases rule: merge_mapsets_cases [of c j s])
    case (target_failed e)
    then show ?thesis using assms(1) by simp
  next
    case no_sources
    then show ?thesis using assms(1) by simp
  next
    case (source_failed e)
    then show ?thesis using assms(1) by simp
  next
    case (looped r v' s3)
    have r: "r = None"
      using assms(1) looped(5) by (cases r) simp_all
    have reg: "lock_ids ?s2 = map (\<lambda>x. (lock_id_of j x, x)) ?names"
      using locked_registry [OF assms(2) looped(1) looped(3)] .
    have keys: "map fst (lock_ids ?s2) = map (lock_id_of j) ?names"
      by (simp add: reg comp_def)
    have d: "distinct ?names" by simp
    have loop: "merge_loop c j (length (request_data j)) (map fst (lock_ids ?s2))
        loop_entry ?s2 = (None, v', s3)"
      using looped(4) r by simp
    from merge_loop_returned [OF loop]
    have m: "merge_calls (history s3) = merge_calls (history ?s2) @
          copies ?t (map (\<lambda>k. the (map_of (lock_ids ?s2) k)) (map fst (lock_ids ?s2)))"
      and f: "failures (history s3) = failures (history ?s2)"
      by simp_all
    have n: "map (\<lambda>k. the (map_of (lock_ids ?s2) k)) (map fst (lock_ids ?s2)) = ?names"
      using names_of_entries [OF d, of j] by (simp only: keys) (simp only: reg)
    have m': "merge_calls (history s3) = merge_calls (history s) @ copies ?t ?names"
      using m by (simp only: n) (simp add: check_lock_mapset_trace lock_each_trace)
    note one = check_lock_mapset_returned [OF looped(1)]
    note each = lock_each_returned [OF looped(3)]
    note fr = merge_loop_frame [OF looped(4)]
    show ?thesis
      using r m' f one each fr reg looped(2,5) by simp
  qed
  show "request_data j \<noteq> []"
    and "lock_calls (history (snd (merge_mapsets c j s))) =
           lock_calls (history s) @ map (lock_id_of j) (target_mapset_name j # request_data j)"
    and "granted_locks (history (snd (merge_mapsets c j s))) =
           granted_locks (history s) @ map (lock_id_of j) (target_mapset_name j # request_data j)"
    and "merge_calls (history (snd (merge_mapsets c j s))) =
           merge_calls (history s) @
             copies (target_mapset_name j)
               (first_occurrences (target_mapset_name j # request_data j))"
    and "lock_ids (snd (merge_mapsets c j s)) =
           map (\<lambda>x. (lock_id_of j x, x))
             (first_occurrences (target_mapset_name j # request_data j))"
    and "failures (history (snd (merge_mapsets c j s))) = failures (history s)"
    using all by simp_all
qed

text \<open>A method that raised has a call that did not succeed, unless it raised for the
  empty list of sources.\<close>

lemma merge_mapsets_failed:
  assumes "fst (merge_mapsets c j s) = Inl e" and "lock_ids s = []"
    and "request_data j \<noteq> []"
  shows "length (failures (history (snd (merge_mapsets c j s)))) =
           Suc (length (failures (history s)))"
proof (cases rule: merge_mapsets_cases [of c j s])
  case (target_failed e')
  then show ?thesis using check_lock_mapset_failed [OF target_failed(1)] by simp
next
  case no_sources
  then show ?thesis using assms(3) by simp
next
  case (source_failed e')
  then show ?thesis
    using lock_each_failed [OF source_failed(3)] check_lock_mapset_returned(3) [OF source_failed(1)]
    by simp
next
  case (looped r v' s3)
  let ?t = "target_mapset_name j"
  let ?s1 = "snd (check_lock_mapset c j ?t s)"
  let ?s2 = "snd (lock_each c j (request_data j) ?s1)"
  obtain e' where r: "r = Some e'"
    using assms(1) looped(5) by (cases r) simp_all
  have present: "\<forall>k \<in> set (map fst (lock_ids ?s2)). map_of (lock_ids ?s2) k \<noteq> None"
    by (auto simp: map_of_eq_None_iff)
  have loop: "merge_loop c j (length (request_data j)) (map fst (lock_ids ?s2))
      loop_entry ?s2 = (Some e', v', s3)"
    using looped(4) r by simp
  from merge_loop_failed [OF loop present] show ?thesis
    using looped(5) check_lock_mapset_returned(3) [OF looped(1)] lock_each_returned [OF looped(3)]
    by simp
qed

text \<open>With the target among the sources and no lock id granted twice, the loop is not
  entered.\<close>

lemma merge_mapsets_target_among_sources:
  assumes "target_mapset_name j \<in> set (request_data j)"
    and "granted_locks (history s) = []"
    and "distinct (granted_locks (history (snd (merge_mapsets c j s))))"
  shows "\<exists>e. fst (merge_mapsets c j s) = Inl e"
    and "polls (history (snd (merge_mapsets c j s))) = polls (history s)"
    and "merge_calls (history (snd (merge_mapsets c j s))) = merge_calls (history s)"
proof -
  have "(\<exists>e. fst (merge_mapsets c j s) = Inl e) \<and>
      polls (history (snd (merge_mapsets c j s))) = polls (history s) \<and>
      merge_calls (history (snd (merge_mapsets c j s))) = merge_calls (history s)"
  proof (cases rule: merge_mapsets_cases [of c j s])
    case (target_failed e)
    then show ?thesis by (simp add: check_lock_mapset_trace)
  next
    case no_sources
    then show ?thesis by (simp add: check_lock_mapset_trace)
  next
    case (source_failed e)
    then show ?thesis by (simp add: check_lock_mapset_trace lock_each_trace)
  next
    case (looped r v' s3)
    have "granted_locks (history s3) =
        map (lock_id_of j) (target_mapset_name j # request_data j)"
      using merge_loop_frame [OF looped(4)] lock_each_returned [OF looped(3)]
        check_lock_mapset_returned(1) [OF looped(1)] assms(2)
      by simp
    then have "\<not> distinct (granted_locks (history (snd (merge_mapsets c j s))))"
      using assms(1) looped(5) by (simp add: distinct_map)
    then show ?thesis using assms(3) by simp
  qed
  then show "\<exists>e. fst (merge_mapsets c j s) = Inl e"
    and "polls (history (snd (merge_mapsets c j s))) = polls (history s)"
    and "merge_calls (history (snd (merge_mapsets c j s))) = merge_calls (history s)"
    by simp_all
qed

lemma merge_mapsets_flag:
  assumes "\<forall>h. length (merge_calls h) = limit \<longrightarrow>
      get_termination c h (user_id j) (resource_id j) = Inr True"
    and "length (merge_calls (history s)) \<le> limit"
  shows "length (merge_calls (history (snd (merge_mapsets c j s)))) \<le> limit"
proof (cases rule: merge_mapsets_cases [of c j s])
  case (target_failed e)
  then show ?thesis using assms(2) by (simp add: check_lock_mapset_trace)
next
  case no_sources
  then show ?thesis using assms(2) by (simp add: check_lock_mapset_trace)
next
  case (source_failed e)
  then show ?thesis using assms(2) by (simp add: check_lock_mapset_trace lock_each_trace)
next
  case (looped r v' s3)
  have "length (merge_calls (history (snd (lock_each c j (request_data j)
      (snd (check_lock_mapset c j (target_mapset_name j) s)))))) \<le> limit"
    using assms(2) by (simp add: check_lock_mapset_trace lock_each_trace)
  from merge_loop_flag [OF looped(4) assms(1) this] show ?thesis
    using looped(5) by simp
qed

subsection \<open>The execution and the run\<close>

lemma run_parts:
  "fst (run c j) = fst (execute c j new_merging)"
  "snd (run c j) = snd (final_cleanup c (snd (execute c j new_merging)))"
  by (simp_all add: run_def split: prod.splits)

lemma execute_cases:
  obtains
    (setup_failed) e where
      "execute c j new_merging = (Inl e, record_event (EvSetup (Inl e)) new_merging)"
  | (started)
      "execute c j new_merging =
         merge_mapsets c j (record_event (EvSetup (Inr ())) new_merging)"
  by (cases "setup_call c (history new_merging)") (auto simp: execute_def Let_def)

lemma run_trace:
  "lock_calls (history (snd (run c j))) = lock_calls (history (snd (execute c j new_merging)))"
  "granted_locks (history (snd (run c j))) =
     granted_locks (history (snd (execute c j new_merging)))"
  "merge_calls (history (snd (run c j))) = merge_calls (history (snd (execute c j new_merging)))"
  "polls (history (snd (run c j))) = polls (history (snd (execute c j new_merging)))"
  "failed_extends (history (snd (run c j))) =
     failed_extends (history (snd (execute c j new_merging)))"
  "termination_signals (history (snd (run c j))) =
     termination_signals (history (snd (execute c j new_merging)))"
  "raised_logs (history (snd (run c j))) = raised_logs (history (snd (execute c j new_merging)))"
  "failures (history (snd (run c j))) = failures (history (snd (execute c j new_merging)))"
  "lock_ids (snd (run c j)) = lock_ids (snd (execute c j new_merging))"
  by (simp_all add: run_parts final_cleanup_frame)

lemma execute_keys:
  assumes "raised_logs (history (snd (execute c j new_merging))) = []"
  shows "map fst (lock_ids (snd (execute c j new_merging))) =
     first_occurrences (granted_locks (history (snd (execute c j new_merging))))"
proof (cases rule: execute_cases [of c j])
  case (setup_failed e)
  then show ?thesis by simp
next
  case started
  let ?s0 = "record_event (EvSetup (Inr ())) new_merging"
  have "map fst (lock_ids ?s0) = first_occurrences (granted_locks (history ?s0))"
    by simp
  moreover have "raised_logs (history (snd (merge_mapsets c j ?s0))) = raised_logs (history ?s0)"
    using assms started by simp
  ultimately show ?thesis
    using merge_mapsets_keys [of ?s0 c j] started by simp
qed

lemma execute_frame:
  "unlock_calls (history (snd (execute c j new_merging))) = []"
  "cleanup_failures (history (snd (execute c j new_merging))) = []"
  by (cases rule: execute_cases [of c j]; simp add: merge_mapsets_frame)+

text \<open>When no call of the cleanup raised, the unlock calls of the run are the keys of the
  registry that the execution left.\<close>

lemma run_unlock_calls:
  assumes "cleanup_failures (history (snd (run c j))) = []"
  shows "unlock_calls (history (snd (run c j))) =
           map fst (lock_ids (snd (execute c j new_merging)))"
proof -
  have "cleanup_failures (history (snd (final_cleanup c (snd (execute c j new_merging))))) =
      cleanup_failures (history (snd (execute c j new_merging)))"
    using assms by (simp add: run_parts execute_frame)
  from final_cleanup_unraised [OF this] show ?thesis
    by (simp add: run_parts execute_frame)
qed

lemma run_copies:
  "\<forall>p \<in> set (merge_calls (history (snd (run c j)))).
     fst p \<noteq> target_mapset_name j \<and> snd p = target_mapset_name j"
proof (cases rule: execute_cases [of c j])
  case (setup_failed e)
  then show ?thesis by (simp add: run_trace)
next
  case started
  then show ?thesis
    using merge_mapsets_copies [of c j "record_event (EvSetup (Inr ())) new_merging"]
    by (auto simp: run_trace)
qed

lemma cleanup_returns_granting: "cleanup_returns granting"
  by (simp add: cleanup_returns_def granting_def)

subsection \<open>The decimal text of a number determines the number\<close>

lemma digit_char_inj:
  assumes "a < 10" and "b < 10" and "digit_char a = digit_char b"
  shows "a = b"
proof -
  have "distinct ''0123456789''" by simp
  then show ?thesis
    using assms nth_eq_iff_index_eq [of "''0123456789''" a b] by (simp add: digit_char_def)
qed

lemma show_nat_not_Nil: "show_nat n \<noteq> []"
  by (subst show_nat.simps) simp

lemma show_nat_inj: "show_nat a = show_nat b \<Longrightarrow> a = b"
proof (induction a arbitrary: b rule: show_nat.induct)
  case (1 n)
  show ?case
  proof (cases "n < 10")
    case True
    then have n: "show_nat n = [digit_char n]"
      by (subst show_nat.simps) simp
    show ?thesis
    proof (cases "b < 10")
      case True
      then have "show_nat b = [digit_char b]"
        by (subst show_nat.simps) simp
      then show ?thesis
        using n "1.prems" \<open>n < 10\<close> True digit_char_inj by simp
    next
      case False
      then have "show_nat b = show_nat (b div 10) @ [digit_char (b mod 10)]"
        by (subst show_nat.simps) simp
      then show ?thesis
        using n "1.prems" show_nat_not_Nil [of "b div 10"] by simp
    qed
  next
    case False
    then have n: "show_nat n = show_nat (n div 10) @ [digit_char (n mod 10)]"
      by (subst show_nat.simps) simp
    show ?thesis
    proof (cases "b < 10")
      case True
      then have "show_nat b = [digit_char b]"
        by (subst show_nat.simps) simp
      then show ?thesis
        using n "1.prems" show_nat_not_Nil [of "n div 10"] by simp
    next
      case b: False
      then have "show_nat b = show_nat (b div 10) @ [digit_char (b mod 10)]"
        by (subst show_nat.simps) simp
      then have heads: "show_nat (n div 10) = show_nat (b div 10)"
        and last: "digit_char (n mod 10) = digit_char (b mod 10)"
        using n "1.prems" by simp_all
      have "n div 10 = b div 10"
        using "1.IH" [OF False heads] .
      moreover have "n mod 10 = b mod 10"
        using digit_char_inj [OF _ _ last] by simp
      ultimately show ?thesis
        by (metis div_mult_mod_eq)
    qed
  qed
qed

lemma extend_failed_message_inj:
  "extend_failed_message m = extend_failed_message m' \<Longrightarrow> m = m'"
  by (simp add: extend_failed_message_def)

lemma merge_mapsets_terminated_registry:
  assumes "lock_ids s = []"
    and "termination_signals (history (snd (merge_mapsets c j s))) \<noteq>
           termination_signals (history s)"
  shows "lock_ids (snd (merge_mapsets c j s)) =
           map (\<lambda>x. (lock_id_of j x, x))
             (first_occurrences (target_mapset_name j # request_data j))"
proof (cases rule: merge_mapsets_cases [of c j s])
  case (target_failed e)
  then show ?thesis using assms(2) by (simp add: check_lock_mapset_trace)
next
  case no_sources
  then show ?thesis using assms(2) by (simp add: check_lock_mapset_trace)
next
  case (source_failed e)
  then show ?thesis using assms(2) by (simp add: check_lock_mapset_trace lock_each_trace)
next
  case (looped r v' s3)
  then show ?thesis
    using locked_registry [OF assms(1) looped(1) looped(3)] merge_loop_frame [OF looped(4)]
    by simp
qed

text \<open>A poll that was answered \<^verbatim>\<open>True\<close> was made after the last copy of the loop.\<close>

lemma merge_step_signal:
  assumes "merge_step c j n k v s = (r, v', s')"
    and "termination_signals (history s') \<noteq> termination_signals (history s)"
  shows "get_termination c (history s) (user_id j) (resource_id j) = Inr True"
  using assms
  by (cases rule: merge_step_cases; auto dest!: extend_locks_effect)

lemma merge_loop_signal:
  "merge_loop c j n ks v s = (r, v', s') \<Longrightarrow>
   termination_signals (history s') \<noteq> termination_signals (history s) \<Longrightarrow>
     \<exists>h. get_termination c h (user_id j) (resource_id j) = Inr True \<and>
       merge_calls h = merge_calls (history s')"
proof (induction ks arbitrary: v s)
  case Nil
  then show ?case by simp
next
  case (Cons k ks)
  obtain r1 v1 s1 where st: "merge_step c j n k v s = (r1, v1, s1)"
    by (cases "merge_step c j n k v s")
  show ?case
  proof (cases r1)
    case None
    then have loop: "merge_loop c j n ks v1 s1 = (r, v', s')"
      using Cons.prems st by simp
    have "termination_signals (history s1) = termination_signals (history s)"
      using merge_step_None(3) st None by simp
    then show ?thesis using Cons.IH [OF loop] Cons.prems(2) by simp
  next
    case (Some e)
    then have eq: "s' = s1" using Cons.prems st by simp
    have sig: "termination_signals (history s1) \<noteq> termination_signals (history s)"
      using Cons.prems(2) eq by simp
    have "get_termination c (history s) (user_id j) (resource_id j) = Inr True"
      using merge_step_signal [OF st sig] .
    moreover have "merge_calls (history s) = merge_calls (history s')"
      using merge_step_terminated(2) [OF st sig] eq by simp
    ultimately show ?thesis by blast
  qed
qed

lemma merge_mapsets_signal:
  assumes "termination_signals (history (snd (merge_mapsets c j s))) \<noteq>
             termination_signals (history s)"
  shows "\<exists>h. get_termination c h (user_id j) (resource_id j) = Inr True \<and>
           merge_calls h = merge_calls (history (snd (merge_mapsets c j s)))"
proof (cases rule: merge_mapsets_cases [of c j s])
  case (target_failed e)
  then show ?thesis using assms by (simp add: check_lock_mapset_trace)
next
  case no_sources
  then show ?thesis using assms by (simp add: check_lock_mapset_trace)
next
  case (source_failed e)
  then show ?thesis using assms by (simp add: check_lock_mapset_trace lock_each_trace)
next
  case (looped r v' s3)
  have "termination_signals (history s3) \<noteq>
      termination_signals (history (snd (lock_each c j (request_data j)
        (snd (check_lock_mapset c j (target_mapset_name j) s)))))"
    using assms looped(5) by (simp add: check_lock_mapset_trace lock_each_trace)
  then show ?thesis
    using merge_loop_signal [OF looped(4)] looped(5) by simp
qed

text \<open>A run without sources in which no call of the execution failed.\<close>

lemma merge_mapsets_no_sources:
  assumes "request_data j = []"
  shows "snd (merge_mapsets c j s) = snd (check_lock_mapset c j (target_mapset_name j) s)"
    and "fst (merge_mapsets c j s) =
           (case fst (check_lock_mapset c j (target_mapset_name j) s) of
              Inl e \<Rightarrow> Inl e
            | Inr u \<Rightarrow> Inl (AsyncProcessError ''Empty source mapset list.''))"
  using assms by (cases rule: merge_mapsets_cases [of c j s]; simp)+

subsection \<open>A lock service that refuses a lock id that is held\<close>

lemma held_keys_snoc: "held_keys (h @ [e]) = holds (held_keys h) e"
  by (simp add: held_keys_def)

text \<open>As long as nothing is unlocked, the lock ids that are held are those that were
  granted.\<close>

lemma held_keys_granted:
  "unlock_calls h = [] \<Longrightarrow> set (held_keys h) = set (granted_locks h)"
proof (induction h rule: rev_induct)
  case Nil
  then show ?case by (simp add: held_keys_def)
next
  case (snoc e h)
  then have ih: "set (held_keys h) = set (granted_locks h)"
    by simp
  show ?case
  proof (cases e)
    case (EvLock k exp r)
    then show ?thesis using ih by (cases r) (auto simp: held_keys_snoc)
  next
    case (EvUnlock k r)
    then show ?thesis using snoc.prems by simp
  qed (simp_all add: held_keys_snoc ih)
qed

lemma check_lock_mapset_granted_call:
  "granted_locks (history (snd (check_lock_mapset c j m s))) = granted_locks (history s) \<or>
   (\<exists>ret. ret \<noteq> 0 \<and>
      lock_interface_lock c (history s @ [EvCheckMapset m (Inr True)]) (lock_id_of j m)
        (process_time_limit j * process_num_limit j) = Inr ret \<and>
      granted_locks (history (snd (check_lock_mapset c j m s))) =
        granted_locks (history s) @ [lock_id_of j m])"
  by (auto simp: check_lock_mapset_def Let_def split: sum.splits)

lemma check_lock_mapset_exclusive:
  assumes "refuses_held c" and "unlock_calls (history s) = []"
    and "distinct (granted_locks (history s))"
  shows "distinct (granted_locks (history (snd (check_lock_mapset c j m s))))"
proof -
  let ?h = "history s @ [EvCheckMapset m (Inr True)]"
  have "unlock_calls ?h = []"
    using assms(2) by simp
  then have held: "set (held_keys ?h) = set (granted_locks (history s))"
    using held_keys_granted [of ?h] by simp
  show ?thesis
    using check_lock_mapset_granted_call [of c j m s]
  proof
    assume "granted_locks (history (snd (check_lock_mapset c j m s))) = granted_locks (history s)"
    then show ?thesis using assms(3) by simp
  next
    assume "\<exists>ret. ret \<noteq> 0 \<and>
      lock_interface_lock c ?h (lock_id_of j m)
        (process_time_limit j * process_num_limit j) = Inr ret \<and>
      granted_locks (history (snd (check_lock_mapset c j m s))) =
        granted_locks (history s) @ [lock_id_of j m]"
    then obtain ret where ret: "ret \<noteq> 0"
      "lock_interface_lock c ?h (lock_id_of j m)
         (process_time_limit j * process_num_limit j) = Inr ret"
      "granted_locks (history (snd (check_lock_mapset c j m s))) =
         granted_locks (history s) @ [lock_id_of j m]"
      by blast
    have "lock_id_of j m \<notin> set (held_keys ?h)"
      using assms(1) ret(1,2) unfolding refuses_held_def by blast
    then show ?thesis
      using held assms(3) ret(3) by simp
  qed
qed

lemma lock_each_exclusive:
  "refuses_held c \<Longrightarrow> unlock_calls (history s) = [] \<Longrightarrow>
   distinct (granted_locks (history s)) \<Longrightarrow>
     distinct (granted_locks (history (snd (lock_each c j ms s))))"
proof (induction ms arbitrary: s)
  case Nil
  then show ?case by simp
next
  case (Cons m ms)
  obtain r s1 where clm: "check_lock_mapset c j m s = (r, s1)"
    by (cases "check_lock_mapset c j m s")
  have d: "distinct (granted_locks (history s1))"
    using check_lock_mapset_exclusive [OF Cons.prems, of j m] clm by simp
  have u: "unlock_calls (history s1) = []"
    using check_lock_mapset_trace(1) [of c j m s] clm Cons.prems(2) by simp
  show ?case
  proof (cases r)
    case (Inl e)
    then show ?thesis using clm d by simp
  next
    case (Inr x)
    then show ?thesis using Cons.IH [OF Cons.prems(1) u d] clm by simp
  qed
qed

lemma merge_mapsets_exclusive:
  assumes "refuses_held c" and "unlock_calls (history s) = []"
    and "distinct (granted_locks (history s))"
  shows "distinct (granted_locks (history (snd (merge_mapsets c j s))))"
proof -
  let ?s1 = "snd (check_lock_mapset c j (target_mapset_name j) s)"
  let ?s2 = "snd (lock_each c j (request_data j) ?s1)"
  have d1: "distinct (granted_locks (history ?s1))"
    using check_lock_mapset_exclusive [OF assms] .
  have u1: "unlock_calls (history ?s1) = []"
    using assms(2) by (simp add: check_lock_mapset_trace)
  have d2: "distinct (granted_locks (history ?s2))"
    using lock_each_exclusive [OF assms(1) u1 d1] .
  show ?thesis
  proof (cases rule: merge_mapsets_cases [of c j s])
    case (target_failed e)
    then show ?thesis using d1 by simp
  next
    case no_sources
    then show ?thesis using d1 by simp
  next
    case (source_failed e)
    then show ?thesis using d2 by simp
  next
    case (looped r v' s3)
    then show ?thesis using d2 merge_loop_frame [OF looped(4)] by simp
  qed
qed

text \<open>With such a lock service no lock id is granted twice during a run.\<close>

lemma run_exclusive:
  assumes "refuses_held c"
  shows "distinct (granted_locks (history (snd (run c j))))"
proof (cases rule: execute_cases [of c j])
  case (setup_failed e)
  then show ?thesis by (simp add: run_trace)
next
  case started
  have "distinct (granted_locks (history
      (snd (merge_mapsets c j (record_event (EvSetup (Inr ())) new_merging)))))"
    by (rule merge_mapsets_exclusive [OF assms]) simp_all
  then show ?thesis using started by (simp add: run_trace)
qed

lemma refuses_held_exclusive_service: "refuses_held exclusive_service"
  by (simp add: refuses_held_def exclusive_service_def granting_def)

lemma refuses_held_lease_lost: "refuses_held lease_lost_after_first_copy"
  by (simp add: refuses_held_def lease_lost_after_first_copy_def exclusive_service_def
      granting_def)

section \<open>The claims\<close>

subsection \<open>C10: locking one mapset and the registry\<close>

text \<open>
  C10. A call of \<^verbatim>\<open>_check_lock_mapset\<close> that raises leaves \<^verbatim>\<open>lock_ids\<close> as it was. A
  call that returns has stored the mapset name under the lock id of the mapset, by the
  update of a dictionary: the entry is appended when the key is new and replaced where
  it stands otherwise, and every other entry is as before. The call returns exactly
  when the mapset exists, the lock service answers the lock call with a non-zero value,
  and the call of the logger that follows returns.
\<close>

theorem check_lock_mapset_atomic:
  "(\<forall>e. fst (check_lock_mapset c j m s) = Inl e \<longrightarrow>
      lock_ids (snd (check_lock_mapset c j m s)) = lock_ids s) \<and>
   (fst (check_lock_mapset c j m s) = Inr () \<longrightarrow>
      lock_ids (snd (check_lock_mapset c j m s)) =
        AList.update (lock_id_of j m) m (lock_ids s) \<and>
      map_of (lock_ids (snd (check_lock_mapset c j m s))) =
        (map_of (lock_ids s))(lock_id_of j m \<mapsto> m) \<and>
      map fst (lock_ids (snd (check_lock_mapset c j m s))) =
        (if lock_id_of j m \<in> set (map fst (lock_ids s)) then map fst (lock_ids s)
         else map fst (lock_ids s) @ [lock_id_of j m])) \<and>
   (fst (check_lock_mapset c j m s) = Inr () \<longleftrightarrow>
      check_mapset c (history s) m = Inr True \<and>
      (\<exists>ret. lock_interface_lock c (history s @ [EvCheckMapset m (Inr True)]) (lock_id_of j m)
                (process_time_limit j * process_num_limit j) = Inr ret \<and> ret \<noteq> 0 \<and>
              message_logger_info c
                (history s @ [EvCheckMapset m (Inr True),
                   EvLock (lock_id_of j m) (process_time_limit j * process_num_limit j) (Inr ret)])
                (locked_message m) = Inr ()))"
proof -
  have "fst (check_lock_mapset c j m s) = Inr () \<longleftrightarrow>
      check_mapset c (history s) m = Inr True \<and>
      (\<exists>ret. lock_interface_lock c (history s @ [EvCheckMapset m (Inr True)]) (lock_id_of j m)
                (process_time_limit j * process_num_limit j) = Inr ret \<and> ret \<noteq> 0 \<and>
              message_logger_info c
                (history s @ [EvCheckMapset m (Inr True),
                   EvLock (lock_id_of j m) (process_time_limit j * process_num_limit j) (Inr ret)])
                (locked_message m) = Inr ())"
    by (auto simp: check_lock_mapset_def Let_def split: sum.splits)
  note succeeds_iff = this
  show ?thesis
  proof (cases "fst (check_lock_mapset c j m s)")
    case (Inl e)
    then show ?thesis
      using succeeds_iff by (simp add: check_lock_mapset_registry)
  next
    case (Inr u)
    then have "lock_ids (snd (check_lock_mapset c j m s)) =
        AList.update (lock_id_of j m) m (lock_ids s)"
      by (simp add: check_lock_mapset_registry)
    then show ?thesis
      using succeeds_iff Inr by (simp add: update_conv' update_keys)
  qed
qed

theorem check_lock_mapset_atomic_witness:
  "fst (check_lock_mapset granting (job_of ''A'' [''B'']) ''B''
          \<lparr>lock_ids = [(''g/l/A'', ''A'')], history = []\<rparr>) = Inr () \<and>
   lock_ids (snd (check_lock_mapset granting (job_of ''A'' [''B'']) ''B''
          \<lparr>lock_ids = [(''g/l/A'', ''A'')], history = []\<rparr>)) =
     [(''g/l/A'', ''A''), (''g/l/B'', ''B'')] \<and>
   fst (check_lock_mapset lock_refusing (job_of ''A'' [''B'']) ''B''
          \<lparr>lock_ids = [(''g/l/A'', ''A'')], history = []\<rparr>) =
     Inl (AsyncProcessError (already_locked_message ''B'')) \<and>
   lock_ids (snd (check_lock_mapset lock_refusing (job_of ''A'' [''B'']) ''B''
          \<lparr>lock_ids = [(''g/l/A'', ''A'')], history = []\<rparr>)) = [(''g/l/A'', ''A'')]"
proof -
  let ?s = "\<lparr>lock_ids = [(''g/l/A'', ''A'')], history = []\<rparr>"
  let ?j = "job_of ''A'' [''B'']"
  have ok: "fst (check_lock_mapset granting ?j ''B'' ?s) = Inr ()"
    by (simp add: check_lock_mapset_def granting_def Let_def)
  have bad: "fst (check_lock_mapset lock_refusing ?j ''B'' ?s) =
      Inl (AsyncProcessError (already_locked_message ''B''))"
    by (simp add: check_lock_mapset_def lock_refusing_def granting_def Let_def)
  have key: "lock_id_of ?j ''B'' = ''g/l/B''"
    by (simp add: lock_id_of_def job_of_def)
  show ?thesis
    using check_lock_mapset_atomic [of granting ?j "''B''" ?s]
      check_lock_mapset_atomic [of lock_refusing ?j "''B''" ?s] ok bad key
    by simp
qed

subsection \<open>C9: the final cleanup\<close>

text \<open>
  C9, as the code has it. When the inherited cleanup and the unlock calls return, the
  final cleanup issues one unlock call for every key of \<^verbatim>\<open>lock_ids\<close>, in the order of the
  dictionary, whatever values the unlock calls return: a value that reports a failure
  is ignored, it is not raised and it does not stop the loop. The cleanup writes no log
  line and leaves \<^verbatim>\<open>lock_ids\<close> as it is.
\<close>

theorem final_cleanup_unlocks_registry:
  assumes "cleanup_returns c"
  shows "fst (final_cleanup c s) = Inr () \<and>
         unlock_calls (history (snd (final_cleanup c s))) =
           unlock_calls (history s) @ map fst (lock_ids s) \<and>
         log_lines (history (snd (final_cleanup c s))) = log_lines (history s) \<and>
         lock_ids (snd (final_cleanup c s)) = lock_ids s"
  using final_cleanup_returns [OF assms, of s] by simp

theorem final_cleanup_unlocks_registry_witness:
  "cleanup_returns unlock_failing \<and>
   fst (final_cleanup unlock_failing holding_A_B) = Inr () \<and>
   unlock_calls (history (snd (final_cleanup unlock_failing holding_A_B))) =
     [''g/l/A'', ''g/l/B''] \<and>
   log_lines (history (snd (final_cleanup unlock_failing holding_A_B))) = []"
  using final_cleanup_unlocks_registry [OF cleanup_returns_unlock_failing, of holding_A_B]
    cleanup_returns_unlock_failing
  by (simp add: holding_A_B_def)

text \<open>
  The claim as it is worded fails in two ways. An unlock call that raises ends the
  loop: with \<^verbatim>\<open>A\<close> and \<^verbatim>\<open>B\<close> registered, the exception of the first unlock call
  leaves the cleanup and no unlock call is issued for \<^verbatim>\<open>B\<close>. An unlock call that reports
  a failure by its value is not logged: the trace of the cleanup holds the inherited
  cleanup and the two unlock calls, and no log line.
\<close>

theorem final_cleanup_best_effort_counterexample:
  "fst (final_cleanup unlock_raising holding_A_B) = Inl (OtherException ''connection lost'') \<and>
   unlock_calls (history (snd (final_cleanup unlock_raising holding_A_B))) = [''g/l/A''] \<and>
   history (snd (final_cleanup unlock_failing holding_A_B)) =
     [EvParentFinalCleanup (Inr ()), EvUnlock ''g/l/A'' (Inr 0), EvUnlock ''g/l/B'' (Inr 0)]"
  by (simp add: final_cleanup_def unlock_raising_def unlock_failing_def granting_def
      holding_A_B_def Let_def record_event_def)

subsection \<open>C1: lock calls and unlock calls\<close>

text \<open>
  C1, as the code has it. The execution issues no unlock call; all unlock calls of a run
  are those of the final cleanup. When the calls of the cleanup return, the unlock calls
  of the run are the keys of \<^verbatim>\<open>lock_ids\<close>, in the order of the dictionary. When moreover
  no call of the logger raised, these are the lock ids that were granted during the
  run, each of them once, in the order in which they were first granted; and when no
  lock id was granted twice, the unlock calls are the granted lock calls, and the two
  numbers are equal. No lock id is granted twice when the lock service refuses a lock
  id that is held. All of this holds wherever the run failed, and when it did not
  fail.
\<close>

theorem unlocks_match_registered_locks:
  "unlock_calls (history (snd (execute c j new_merging))) = [] \<and>
   (cleanup_failures (history (snd (run c j))) = [] \<longrightarrow>
      unlock_calls (history (snd (run c j))) = map fst (lock_ids (snd (run c j)))) \<and>
   (raised_logs (history (snd (run c j))) = [] \<and>
    cleanup_failures (history (snd (run c j))) = [] \<longrightarrow>
      unlock_calls (history (snd (run c j))) =
        first_occurrences (granted_locks (history (snd (run c j)))) \<and>
      (distinct (granted_locks (history (snd (run c j)))) \<longrightarrow>
         unlock_calls (history (snd (run c j))) = granted_locks (history (snd (run c j))) \<and>
         length (unlock_calls (history (snd (run c j)))) =
           length (granted_locks (history (snd (run c j)))))) \<and>
   (refuses_held c \<longrightarrow> distinct (granted_locks (history (snd (run c j)))))"
proof -
  let ?e = "snd (execute c j new_merging)"
  let ?H = "history (snd (run c j))"
  have registry: "cleanup_failures ?H = [] \<Longrightarrow> unlock_calls ?H = map fst (lock_ids (snd (run c j)))"
    using run_unlock_calls [of c j] by (simp add: run_trace)
  have granted: "unlock_calls ?H = first_occurrences (granted_locks ?H)"
    if "raised_logs ?H = []" and "cleanup_failures ?H = []"
  proof -
    have "raised_logs (history ?e) = []"
      using that(1) by (simp add: run_trace)
    then have "map fst (lock_ids ?e) = first_occurrences (granted_locks (history ?e))"
      by (rule execute_keys)
    then show ?thesis
      using run_unlock_calls [OF that(2)] by (simp add: run_trace)
  qed
  show ?thesis
    using registry granted run_exclusive [of c j]
    by (simp add: execute_frame first_occurrences_distinct)
qed

theorem unlocks_match_registered_locks_witness:
  "refuses_held exclusive_service \<and>
   raised_logs (history (snd (run exclusive_service (job_of ''A'' [''B'', ''C''])))) = [] \<and>
   cleanup_failures (history (snd (run exclusive_service (job_of ''A'' [''B'', ''C''])))) = [] \<and>
   distinct (granted_locks (history (snd (run exclusive_service (job_of ''A'' [''B'', ''C'']))))) \<and>
   fst (run exclusive_service (job_of ''A'' [''B'', ''C''])) = Inr () \<and>
   unlock_calls (history (snd (run exclusive_service (job_of ''A'' [''B'', ''C''])))) =
     [''g/l/A'', ''g/l/B'', ''g/l/C''] \<and>
   length (unlock_calls (history (snd (run exclusive_service (job_of ''A'' [''B'', ''C'']))))) =
     length (granted_locks (history (snd (run exclusive_service (job_of ''A'' [''B'', ''C'']))))) \<and>
   refuses_held lease_lost_after_first_copy \<and>
   raised_logs (history (snd (run lease_lost_after_first_copy (job_of ''A'' [''B'', ''C''])))) = [] \<and>
   cleanup_failures (history (snd (run lease_lost_after_first_copy (job_of ''A'' [''B'', ''C''])))) = [] \<and>
   fst (run lease_lost_after_first_copy (job_of ''A'' [''B'', ''C''])) =
     Inl (AsyncProcessError ''Unable to extend lock for mapset <C>'') \<and>
   unlock_calls (history (snd (run lease_lost_after_first_copy (job_of ''A'' [''B'', ''C''])))) =
     [''g/l/A'', ''g/l/B'', ''g/l/C''] \<and>
   length (unlock_calls (history (snd (run lease_lost_after_first_copy (job_of ''A'' [''B'', ''C'']))))) =
     length (granted_locks (history (snd (run lease_lost_after_first_copy (job_of ''A'' [''B'', ''C''])))))"
proof -
  let ?j = "job_of ''A'' [''B'', ''C'']"
  let ?H = "history (snd (run exclusive_service ?j))"
  let ?F = "history (snd (run lease_lost_after_first_copy ?j))"
  have g: "granted_locks ?H = [''g/l/A'', ''g/l/B'', ''g/l/C'']"
    by code_simp
  have r: "raised_logs ?H = []"
    by code_simp
  have f: "cleanup_failures ?H = []"
    by code_simp
  have ok: "fst (run exclusive_service ?j) = Inr ()"
    by code_simp
  have d: "distinct (granted_locks ?H)"
    using unlocks_match_registered_locks [of exclusive_service ?j] refuses_held_exclusive_service
    by blast
  have returned: "unlock_calls ?H = granted_locks ?H \<and>
      length (unlock_calls ?H) = length (granted_locks ?H)"
    using unlocks_match_registered_locks [of exclusive_service ?j] r f d
    by blast
  have g': "granted_locks ?F = [''g/l/A'', ''g/l/B'', ''g/l/C'']"
    by code_simp
  have r': "raised_logs ?F = []"
    by code_simp
  have f': "cleanup_failures ?F = []"
    by code_simp
  have bad: "fst (run lease_lost_after_first_copy ?j) =
      Inl (AsyncProcessError ''Unable to extend lock for mapset <C>'')"
    by code_simp
  have d': "distinct (granted_locks ?F)"
    using unlocks_match_registered_locks [of lease_lost_after_first_copy ?j]
      refuses_held_lease_lost
    by blast
  have failed: "unlock_calls ?F = granted_locks ?F \<and>
      length (unlock_calls ?F) = length (granted_locks ?F)"
    using unlocks_match_registered_locks [of lease_lost_after_first_copy ?j] r' f' d'
    by blast
  show ?thesis
    using refuses_held_exclusive_service refuses_held_lease_lost r f d ok returned r' f' bad failed
    by (simp add: g g')
qed

text \<open>
  The balance claimed for every run fails in two ways, with a lock service that grants
  no lock id twice. A call of the logger that raises right after a lock was granted
  leaves \<^verbatim>\<open>_check_lock_mapset\<close> before the lock id is stored: with target \<^verbatim>\<open>A\<close> and the
  source \<^verbatim>\<open>B\<close>, the lock of \<^verbatim>\<open>A\<close> is granted and no unlock call is issued. An unlock call
  that raises ends the cleanup: with target \<^verbatim>\<open>A\<close> and the sources \<^verbatim>\<open>B\<close> and \<^verbatim>\<open>C\<close>, three
  locks are granted and one unlock call is issued.
\<close>

theorem lock_unlock_balance_counterexample:
  "granted_locks (history (snd (run logger_raising (job_of ''A'' [''B''])))) = [''g/l/A''] \<and>
   unlock_calls (history (snd (run logger_raising (job_of ''A'' [''B''])))) = [] \<and>
   granted_locks (history (snd (run exclusive_unlock_raising (job_of ''A'' [''B'', ''C''])))) =
     [''g/l/A'', ''g/l/B'', ''g/l/C''] \<and>
   unlock_calls (history (snd (run exclusive_unlock_raising (job_of ''A'' [''B'', ''C''])))) =
     [''g/l/A'']"
  by code_simp

subsection \<open>C3: an empty list of sources\<close>

text \<open>
  C3, as the code has it. With an empty list of sources \<^verbatim>\<open>_merge_mapsets\<close> does what
  the check and lock of the target mapset does, and nothing after it: when the target
  exists a lock call for the target is issued; no source is checked or locked, the
  termination flag is not polled and nothing is copied. When the target was locked the
  method raises the error \<^verbatim>\<open>Empty source mapset list.\<close>, and otherwise the error of the
  target. In the run, the lock calls are none, or the one for the target. When that
  lock was granted and no call of the logger raised, the run ends with the error
  \<^verbatim>\<open>Empty source mapset list.\<close> and \<^verbatim>\<open>lock_ids\<close> holds the lock id of the target alone;
  when moreover the calls of the cleanup returned, the unlock calls of the run are the
  one for the target.
\<close>

theorem empty_source_list:
  assumes "request_data j = []"
  shows "snd (merge_mapsets c j s) = snd (check_lock_mapset c j (target_mapset_name j) s) \<and>
         fst (merge_mapsets c j s) =
           (case fst (check_lock_mapset c j (target_mapset_name j) s) of
              Inl e \<Rightarrow> Inl e
            | Inr u \<Rightarrow> Inl (AsyncProcessError ''Empty source mapset list.'')) \<and>
         (check_mapset c (history s) (target_mapset_name j) = Inr True \<longrightarrow>
            lock_calls (history (snd (merge_mapsets c j s))) =
              lock_calls (history s) @ [lock_id_of j (target_mapset_name j)]) \<and>
         polls (history (snd (merge_mapsets c j s))) = polls (history s) \<and>
         merge_calls (history (snd (merge_mapsets c j s))) = merge_calls (history s) \<and>
         (lock_calls (history (snd (run c j))) = [] \<or>
          lock_calls (history (snd (run c j))) = [lock_id_of j (target_mapset_name j)]) \<and>
         polls (history (snd (run c j))) = [] \<and>
         merge_calls (history (snd (run c j))) = [] \<and>
         (granted_locks (history (snd (run c j))) = [lock_id_of j (target_mapset_name j)] \<and>
          raised_logs (history (snd (run c j))) = [] \<longrightarrow>
            fst (run c j) = Inl (AsyncProcessError ''Empty source mapset list.'') \<and>
            lock_ids (snd (run c j)) =
              [(lock_id_of j (target_mapset_name j), target_mapset_name j)] \<and>
            (cleanup_failures (history (snd (run c j))) = [] \<longrightarrow>
               unlock_calls (history (snd (run c j))) = [lock_id_of j (target_mapset_name j)]))"
proof -
  let ?t = "target_mapset_name j"
  let ?H = "history (snd (run c j))"
  let ?s0 = "record_event (EvSetup (Inr ())) new_merging"
  note mm = merge_mapsets_no_sources [OF assms]
  have in_method: "snd (merge_mapsets c j s) = snd (check_lock_mapset c j ?t s) \<and>
         fst (merge_mapsets c j s) =
           (case fst (check_lock_mapset c j ?t s) of
              Inl e \<Rightarrow> Inl e
            | Inr u \<Rightarrow> Inl (AsyncProcessError ''Empty source mapset list.'')) \<and>
         (check_mapset c (history s) ?t = Inr True \<longrightarrow>
            lock_calls (history (snd (merge_mapsets c j s))) =
              lock_calls (history s) @ [lock_id_of j ?t]) \<and>
         polls (history (snd (merge_mapsets c j s))) = polls (history s) \<and>
         merge_calls (history (snd (merge_mapsets c j s))) = merge_calls (history s)"
    using mm [of c s] by (simp add: check_lock_mapset_trace check_lock_mapset_existing)
  have in_run: "(lock_calls ?H = [] \<or> lock_calls ?H = [lock_id_of j ?t]) \<and>
         polls ?H = [] \<and> merge_calls ?H = [] \<and>
         (granted_locks ?H = [lock_id_of j ?t] \<and> raised_logs ?H = [] \<longrightarrow>
            fst (run c j) = Inl (AsyncProcessError ''Empty source mapset list.'') \<and>
            lock_ids (snd (run c j)) = [(lock_id_of j ?t, ?t)])"
  proof (cases rule: execute_cases [of c j])
    case (setup_failed e)
    then show ?thesis by (simp add: run_trace)
  next
    case started
    have e: "snd (execute c j new_merging) = snd (check_lock_mapset c j ?t ?s0)"
      "fst (execute c j new_merging) =
         (case fst (check_lock_mapset c j ?t ?s0) of
            Inl e \<Rightarrow> Inl e
          | Inr u \<Rightarrow> Inl (AsyncProcessError ''Empty source mapset list.''))"
      using started mm [of c ?s0] by simp_all
    show ?thesis
    proof (cases rule: check_lock_mapset_cases [of c j ?t ?s0])
      case (absent r e')
      then show ?thesis using e by (simp add: run_parts(1) run_trace)
    next
      case (refused r e')
      then show ?thesis using e by (simp add: run_parts(1) run_trace)
    next
      case (unlogged ret e')
      then show ?thesis using e by (simp add: run_parts(1) run_trace)
    next
      case (locked ret)
      then show ?thesis using e by (simp add: run_parts(1) run_trace)
    qed
  qed
  have cleanup: "unlock_calls ?H = [lock_id_of j ?t]"
    if "granted_locks ?H = [lock_id_of j ?t]" and "raised_logs ?H = []"
      and "cleanup_failures ?H = []"
  proof -
    have "lock_ids (snd (execute c j new_merging)) = [(lock_id_of j ?t, ?t)]"
      using in_run that(1,2) by (simp add: run_trace)
    then show ?thesis
      using run_unlock_calls [OF that(3)] by simp
  qed
  show ?thesis
    using in_method in_run cleanup by blast
qed

theorem empty_source_list_witness:
  "request_data (job_of ''T'' []) = [] \<and>
   check_mapset exclusive_service (history new_merging) (target_mapset_name (job_of ''T'' [])) =
     Inr True \<and>
   granted_locks (history (snd (run exclusive_service (job_of ''T'' [])))) =
     [lock_id_of (job_of ''T'' []) (target_mapset_name (job_of ''T'' []))] \<and>
   raised_logs (history (snd (run exclusive_service (job_of ''T'' [])))) = [] \<and>
   cleanup_failures (history (snd (run exclusive_service (job_of ''T'' [])))) = [] \<and>
   fst (merge_mapsets exclusive_service (job_of ''T'' []) new_merging) =
     Inl (AsyncProcessError ''Empty source mapset list.'') \<and>
   lock_calls (history (snd (merge_mapsets exclusive_service (job_of ''T'' []) new_merging))) =
     [''g/l/T''] \<and>
   fst (run exclusive_service (job_of ''T'' [])) =
     Inl (AsyncProcessError ''Empty source mapset list.'') \<and>
   lock_ids (snd (run exclusive_service (job_of ''T'' []))) = [(''g/l/T'', ''T'')] \<and>
   unlock_calls (history (snd (run exclusive_service (job_of ''T'' [])))) = [''g/l/T'']"
proof -
  let ?j = "job_of ''T'' []"
  let ?H = "history (snd (run exclusive_service ?j))"
  have r: "request_data ?j = []"
    by (simp add: job_of_def)
  have t: "target_mapset_name ?j = ''T''"
    by (simp add: job_of_def)
  have k: "lock_id_of ?j ''T'' = ''g/l/T''"
    by (simp add: job_of_def lock_id_of_def)
  have e: "check_mapset exclusive_service (history new_merging) ''T'' = Inr True"
    by (simp add: exclusive_service_def granting_def)
  have ok: "fst (check_lock_mapset exclusive_service ?j ''T'' new_merging) = Inr ()"
    by code_simp
  have g: "granted_locks ?H = [''g/l/T'']"
    by code_simp
  have l: "raised_logs ?H = []"
    by code_simp
  have f: "cleanup_failures ?H = []"
    by code_simp
  note inst = empty_source_list [OF r, of exclusive_service new_merging]
  have e': "check_mapset exclusive_service (history new_merging) (target_mapset_name ?j) = Inr True"
    using e by (simp add: t)
  have m1: "lock_calls (history (snd (merge_mapsets exclusive_service ?j new_merging))) =
      lock_calls (history new_merging) @ [lock_id_of ?j (target_mapset_name ?j)]"
    using inst e' by blast
  have m2: "fst (merge_mapsets exclusive_service ?j new_merging) =
      (case fst (check_lock_mapset exclusive_service ?j (target_mapset_name ?j) new_merging) of
         Inl e \<Rightarrow> Inl e
       | Inr u \<Rightarrow> Inl (AsyncProcessError ''Empty source mapset list.''))"
    using inst by blast
  have m: "fst (merge_mapsets exclusive_service ?j new_merging) =
        Inl (AsyncProcessError ''Empty source mapset list.'') \<and>
      lock_calls (history (snd (merge_mapsets exclusive_service ?j new_merging))) = [''g/l/T'']"
    using m1 m2 ok by (simp add: t k)
  have g': "granted_locks ?H = [lock_id_of ?j (target_mapset_name ?j)]"
    using g by (simp add: t k)
  have "fst (run exclusive_service ?j) = Inl (AsyncProcessError ''Empty source mapset list.'') \<and>
      lock_ids (snd (run exclusive_service ?j)) =
        [(lock_id_of ?j (target_mapset_name ?j), target_mapset_name ?j)] \<and>
      unlock_calls ?H = [lock_id_of ?j (target_mapset_name ?j)]"
    using inst g' l f by blast
  then show ?thesis
    using r e g l f m by (simp add: t k)
qed

text \<open>
  The claim that no lock call occurs, and that the error is the sole observable outcome,
  fails: with an empty list of sources the target \<^verbatim>\<open>A\<close> is locked before the list is
  looked at, the run fails with the error of the empty list, and the cleanup unlocks
  \<^verbatim>\<open>A\<close>. When the inherited cleanup raises, the lock that was granted is not given
  back: no unlock call is issued.
\<close>

theorem empty_source_list_counterexample:
  "lock_calls (history (snd (run exclusive_service (job_of ''A'' [])))) = [''g/l/A''] \<and>
   granted_locks (history (snd (run exclusive_service (job_of ''A'' [])))) = [''g/l/A''] \<and>
   fst (run exclusive_service (job_of ''A'' [])) =
     Inl (AsyncProcessError ''Empty source mapset list.'') \<and>
   unlock_calls (history (snd (run exclusive_service (job_of ''A'' [])))) = [''g/l/A''] \<and>
   granted_locks (history (snd (run inherited_cleanup_raising (job_of ''A'' [])))) = [''g/l/A''] \<and>
   unlock_calls (history (snd (run inherited_cleanup_raising (job_of ''A'' [])))) = []"
  by code_simp

subsection \<open>C8: the target is locked first\<close>

text \<open>
  C8. The events that \<^verbatim>\<open>_merge_mapsets\<close> adds to the trace begin with the existence
  check of the target mapset. Either that check is the only event (the target does not
  exist, or the check raised), or the lock call for the target follows it and is the
  last event (the lock call was refused or raised), or the lock call for the target
  follows it with a non-zero answer and everything else comes after: no check and no
  lock call for a source precedes the granted lock of the target.
\<close>

theorem target_locked_first:
  "\<exists>new. history (snd (merge_mapsets c j s)) = history s @ new \<and>
     ((\<exists>r. new = [EvCheckMapset (target_mapset_name j) r] \<and> r \<noteq> Inr True) \<or>
      (\<exists>r. new = [EvCheckMapset (target_mapset_name j) (Inr True),
                   EvLock (lock_id_of j (target_mapset_name j))
                     (process_time_limit j * process_num_limit j) r] \<and>
            (\<forall>ret. r = Inr ret \<longrightarrow> ret = 0)) \<or>
      (\<exists>ret rest. new = EvCheckMapset (target_mapset_name j) (Inr True) #
                     EvLock (lock_id_of j (target_mapset_name j))
                       (process_time_limit j * process_num_limit j) (Inr ret) # rest \<and>
            ret \<noteq> 0))"
proof -
  let ?t = "target_mapset_name j"
  let ?s1 = "snd (check_lock_mapset c j ?t s)"
  obtain more where more: "history (snd (merge_mapsets c j s)) = history ?s1 @ more"
    using merge_mapsets_grows_from_target by blast
  have stop: "\<And>e. fst (check_lock_mapset c j ?t s) = Inl e \<Longrightarrow>
      history (snd (merge_mapsets c j s)) = history ?s1"
  proof -
    fix e
    assume "fst (check_lock_mapset c j ?t s) = Inl e"
    then obtain s1' where "check_lock_mapset c j ?t s = (Inl e, s1')"
      by (cases "check_lock_mapset c j ?t s") auto
    then show "history (snd (merge_mapsets c j s)) = history ?s1"
      by (simp add: merge_mapsets_def)
  qed
  show ?thesis
  proof (cases rule: check_lock_mapset_cases [of c j ?t s])
    case (absent r e)
    then show ?thesis using stop [OF absent(4)] by simp
  next
    case (refused r e)
    then show ?thesis using stop [OF refused(5)] by simp
  next
    case (unlogged ret e)
    then show ?thesis using stop [OF unlogged(3)] by simp
  next
    case (locked ret)
    then show ?thesis using more by simp
  qed
qed

theorem target_locked_first_witness:
  "take 2 (history (snd (merge_mapsets granting (job_of ''A'' [''B'']) new_merging))) =
     [EvCheckMapset ''A'' (Inr True), EvLock ''g/l/A'' 600 (Inr 1)] \<and>
   take 2 (history (snd (merge_mapsets lock_refusing (job_of ''A'' [''B'']) new_merging))) =
     history (snd (merge_mapsets lock_refusing (job_of ''A'' [''B'']) new_merging))"
proof -
  have a: "history (snd (check_lock_mapset granting (job_of ''A'' [''B'']) ''A'' new_merging)) =
     [EvCheckMapset ''A'' (Inr True), EvLock ''g/l/A'' 600 (Inr 1),
      EvLogInfo (locked_message ''A'') (Inr ())]"
    by (simp add: check_lock_mapset_def granting_def job_of_def lock_id_of_def new_merging_def
        Let_def)
  have b: "history (snd (check_lock_mapset lock_refusing (job_of ''A'' [''B'']) ''A'' new_merging)) =
     [EvCheckMapset ''A'' (Inr True), EvLock ''g/l/A'' 600 (Inr 0)]"
    by (simp add: check_lock_mapset_def lock_refusing_def granting_def job_of_def lock_id_of_def
        new_merging_def Let_def)
  have t: "target_mapset_name (job_of ''A'' [''B'']) = ''A''"
    by (simp add: job_of_def)
  obtain more where "history (snd (merge_mapsets granting (job_of ''A'' [''B'']) new_merging)) =
      history (snd (check_lock_mapset granting (job_of ''A'' [''B'']) ''A'' new_merging)) @ more"
    using merge_mapsets_grows_from_target [of granting "job_of ''A'' [''B'']" new_merging]
    by (auto simp: t)
  then have first: "take 2 (history (snd (merge_mapsets granting (job_of ''A'' [''B'']) new_merging))) =
     [EvCheckMapset ''A'' (Inr True), EvLock ''g/l/A'' 600 (Inr 1)]"
    by (simp add: a)
  obtain more2 where
    "history (snd (merge_mapsets lock_refusing (job_of ''A'' [''B'']) new_merging)) =
      [EvCheckMapset ''A'' (Inr True), EvLock ''g/l/A'' 600 (Inr 0)] @ more2"
    using merge_mapsets_grows_from_target [of lock_refusing "job_of ''A'' [''B'']" new_merging]
    by (auto simp: t b)
  then have second: "take 2 (history (snd (merge_mapsets lock_refusing (job_of ''A'' [''B'']) new_merging))) =
     history (snd (merge_mapsets lock_refusing (job_of ''A'' [''B'']) new_merging))"
    using target_locked_first [of lock_refusing "job_of ''A'' [''B'']" new_merging]
    by (auto simp: t)
  show ?thesis using first second by simp
qed

subsection \<open>C4: a run in which everything succeeds\<close>

text \<open>
  C4. Let the sources of the job be distinct mapsets, none of them the target. A run in
  which no call of the execution failed (no call raised, every mapset exists, every
  lock and every extension was answered with a non-zero value, and no poll of the
  termination flag was answered \<^verbatim>\<open>True\<close>) issues one lock call for the target followed
  by one for each source, in the order of the list, and the lock id of the target is
  not among those of the sources; its merge-copy invocations are one for each source
  into the target, in the order of the list, so that their number is the number of
  sources. With a non-empty list of sources such a run returns without an error.
  Conversely, in a run that returns without an error the list of sources is not empty
  and no call of the execution failed.
\<close>

theorem successful_run_locks_and_copies:
  assumes "distinct (request_data j)" and "target_mapset_name j \<notin> set (request_data j)"
  shows "(failures (history (snd (run c j))) = [] \<longrightarrow>
            lock_calls (history (snd (run c j))) =
              lock_id_of j (target_mapset_name j) # map (lock_id_of j) (request_data j) \<and>
            lock_id_of j (target_mapset_name j) \<notin> set (map (lock_id_of j) (request_data j)) \<and>
            merge_calls (history (snd (run c j))) =
              map (\<lambda>m. (m, target_mapset_name j)) (request_data j) \<and>
            length (merge_calls (history (snd (run c j)))) = length (request_data j) \<and>
            (request_data j \<noteq> [] \<longrightarrow> fst (run c j) = Inr ())) \<and>
         (fst (run c j) = Inr () \<longrightarrow>
            request_data j \<noteq> [] \<and> failures (history (snd (run c j))) = [])"
proof -
  let ?s0 = "record_event (EvSetup (Inr ())) new_merging"
  let ?t = "target_mapset_name j"
  let ?H = "history (snd (run c j))"
  have s0: "lock_ids ?s0 = []" by simp
  have d: "distinct (?t # request_data j)"
    using assms by simp
  have cp: "copies ?t (first_occurrences (?t # request_data j)) =
      map (\<lambda>m. (m, ?t)) (request_data j)"
    using assms(2) by (simp add: first_occurrences_distinct [OF d] copies_others)
  have returned: "request_data j \<noteq> [] \<and> failures ?H = [] \<and>
      lock_calls ?H = lock_id_of j ?t # map (lock_id_of j) (request_data j) \<and>
      merge_calls ?H = map (\<lambda>m. (m, ?t)) (request_data j)"
    if ok: "fst (run c j) = Inr ()"
  proof (cases rule: execute_cases [of c j])
    case (setup_failed e)
    then show ?thesis using ok by (simp add: run_parts(1))
  next
    case started
    then have m: "fst (merge_mapsets c j ?s0) = Inr ()"
      using ok by (simp add: run_parts(1))
    show ?thesis
      using merge_mapsets_returned [OF m s0] started cp by (simp add: run_trace)
  qed
  have unfailed: "(request_data j \<noteq> [] \<longrightarrow> fst (run c j) = Inr ()) \<and>
      lock_calls ?H = lock_id_of j ?t # map (lock_id_of j) (request_data j) \<and>
      merge_calls ?H = map (\<lambda>m. (m, ?t)) (request_data j)"
    if nf: "failures ?H = []"
  proof (cases rule: execute_cases [of c j])
    case (setup_failed e)
    then show ?thesis using nf by (simp add: run_trace)
  next
    case started
    then have nf': "failures (history (snd (merge_mapsets c j ?s0))) = []"
      using nf by (simp add: run_trace)
    show ?thesis
    proof (cases "request_data j = []")
      case True
      have s: "snd (merge_mapsets c j ?s0) = snd (check_lock_mapset c j ?t ?s0)"
        using merge_mapsets_no_sources(1) [OF True] .
      show ?thesis
      proof (cases "fst (check_lock_mapset c j ?t ?s0)")
        case (Inl e)
        then show ?thesis
          using check_lock_mapset_failed [OF Inl] nf' s by simp
      next
        case (Inr u)
        then have "fst (check_lock_mapset c j ?t ?s0) = Inr ()" by simp
        then show ?thesis
          using check_lock_mapset_returned(2) [of c j ?t ?s0]
            check_lock_mapset_trace(2) [of c j ?t ?s0] started s True
          by (simp add: run_trace)
      qed
    next
      case False
      show ?thesis
      proof (cases "fst (merge_mapsets c j ?s0)")
        case (Inl e)
        then show ?thesis
          using merge_mapsets_failed [OF Inl s0 False] nf' by simp
      next
        case (Inr u)
        then have "fst (run c j) = Inr ()"
          using started by (simp add: run_parts(1))
        then show ?thesis using returned by simp
      qed
    qed
  qed
  have k: "lock_id_of j ?t \<notin> set (map (lock_id_of j) (request_data j))"
    using assms(2) by auto
  show ?thesis
    using returned unfailed k by auto
qed

theorem successful_run_locks_and_copies_witness:
  "distinct (request_data (job_of ''A'' [''B'', ''C''])) \<and>
   target_mapset_name (job_of ''A'' [''B'', ''C'']) \<notin> set (request_data (job_of ''A'' [''B'', ''C''])) \<and>
   failures (history (snd (run exclusive_service (job_of ''A'' [''B'', ''C''])))) = [] \<and>
   fst (run exclusive_service (job_of ''A'' [''B'', ''C''])) = Inr () \<and>
   lock_calls (history (snd (run exclusive_service (job_of ''A'' [''B'', ''C''])))) =
     [''g/l/A'', ''g/l/B'', ''g/l/C''] \<and>
   merge_calls (history (snd (run exclusive_service (job_of ''A'' [''B'', ''C''])))) =
     [(''B'', ''A''), (''C'', ''A'')]"
proof -
  have d: "distinct (request_data (job_of ''A'' [''B'', ''C'']))"
    by (simp add: job_of_def)
  have t: "target_mapset_name (job_of ''A'' [''B'', ''C'']) \<notin>
      set (request_data (job_of ''A'' [''B'', ''C'']))"
    by (simp add: job_of_def)
  have f: "failures (history (snd (run exclusive_service (job_of ''A'' [''B'', ''C''])))) = []"
    by code_simp
  show ?thesis
    using successful_run_locks_and_copies [OF d t, of exclusive_service] d t f
    by (simp add: job_of_def lock_id_of_def)
qed

subsection \<open>C2: the target among the sources\<close>

text \<open>
  C2, as the code has it. In no run is a mapset copied into itself: no merge-copy
  invocation has the target as its source. Let the target mapset occur in the list of
  sources. The target is locked before the sources are, so the lock call for its
  occurrence in the list asks for a lock id that the job holds: in a run in which no
  lock id was granted twice, the run ends with an error, the termination flag is never
  polled and nothing is copied. No lock id is granted twice when the lock service
  refuses a lock id that is held. In every run in which the lock of the target was
  granted, no call of the logger raised and the calls of the cleanup returned, the
  cleanup unlocks the lock id of the target, once.
\<close>

theorem self_merge_is_skipped:
  "target_mapset_name j \<notin> fst ` set (merge_calls (history (snd (run c j)))) \<and>
   (target_mapset_name j \<in> set (request_data j) \<and>
    distinct (granted_locks (history (snd (run c j)))) \<longrightarrow>
      (\<exists>e. fst (run c j) = Inl e) \<and>
      polls (history (snd (run c j))) = [] \<and>
      merge_calls (history (snd (run c j))) = []) \<and>
   (refuses_held c \<longrightarrow> distinct (granted_locks (history (snd (run c j))))) \<and>
   (lock_id_of j (target_mapset_name j) \<in> set (granted_locks (history (snd (run c j)))) \<and>
    raised_logs (history (snd (run c j))) = [] \<and>
    cleanup_failures (history (snd (run c j))) = [] \<longrightarrow>
      lock_id_of j (target_mapset_name j) \<in> set (unlock_calls (history (snd (run c j)))) \<and>
      distinct (unlock_calls (history (snd (run c j)))))"
proof -
  let ?H = "history (snd (run c j))"
  let ?s0 = "record_event (EvSetup (Inr ())) new_merging"
  have never: "target_mapset_name j \<notin> fst ` set (merge_calls ?H)"
    using run_copies [of c j] by auto
  have refused: "(\<exists>e. fst (run c j) = Inl e) \<and> polls ?H = [] \<and> merge_calls ?H = []"
    if among: "target_mapset_name j \<in> set (request_data j)"
      and excl: "distinct (granted_locks ?H)"
  proof (cases rule: execute_cases [of c j])
    case (setup_failed e)
    then show ?thesis by (simp add: run_parts(1) run_trace)
  next
    case started
    have g0: "granted_locks (history ?s0) = []" by simp
    have d: "distinct (granted_locks (history (snd (merge_mapsets c j ?s0))))"
      using excl started by (simp add: run_trace)
    show ?thesis
      using merge_mapsets_target_among_sources [OF among g0 d] started
      by (simp add: run_parts(1) run_trace)
  qed
  have unlocked: "lock_id_of j (target_mapset_name j) \<in> set (unlock_calls ?H) \<and>
      distinct (unlock_calls ?H)"
    if held: "lock_id_of j (target_mapset_name j) \<in> set (granted_locks ?H)"
      and logged: "raised_logs ?H = []" and returned: "cleanup_failures ?H = []"
  proof -
    have "raised_logs (history (snd (execute c j new_merging))) = []"
      using logged by (simp add: run_trace)
    then have "map fst (lock_ids (snd (execute c j new_merging))) =
        first_occurrences (granted_locks (history (snd (execute c j new_merging))))"
      by (rule execute_keys)
    then have "unlock_calls ?H = first_occurrences (granted_locks ?H)"
      using run_unlock_calls [OF returned] by (simp add: run_trace)
    then show ?thesis
      using held by simp
  qed
  show ?thesis
    using never refused unlocked run_exclusive [of c j] by blast
qed

theorem self_merge_is_skipped_witness:
  "refuses_held exclusive_service \<and>
   target_mapset_name (job_of ''A'' [''B'', ''A'']) \<in> set (request_data (job_of ''A'' [''B'', ''A''])) \<and>
   distinct (granted_locks (history (snd (run exclusive_service (job_of ''A'' [''B'', ''A'']))))) \<and>
   lock_id_of (job_of ''A'' [''B'', ''A'']) (target_mapset_name (job_of ''A'' [''B'', ''A''])) \<in>
     set (granted_locks (history (snd (run exclusive_service (job_of ''A'' [''B'', ''A'']))))) \<and>
   raised_logs (history (snd (run exclusive_service (job_of ''A'' [''B'', ''A''])))) = [] \<and>
   cleanup_failures (history (snd (run exclusive_service (job_of ''A'' [''B'', ''A''])))) = [] \<and>
   fst (run exclusive_service (job_of ''A'' [''B'', ''A''])) =
     Inl (AsyncProcessError ''Unable to lock mapset <A>, resource is already locked'') \<and>
   polls (history (snd (run exclusive_service (job_of ''A'' [''B'', ''A''])))) = [] \<and>
   merge_calls (history (snd (run exclusive_service (job_of ''A'' [''B'', ''A''])))) = [] \<and>
   ''g/l/A'' \<in> set (unlock_calls (history (snd (run exclusive_service (job_of ''A'' [''B'', ''A''])))))"
proof -
  let ?j = "job_of ''A'' [''B'', ''A'']"
  let ?H = "history (snd (run exclusive_service ?j))"
  have among: "target_mapset_name ?j \<in> set (request_data ?j)"
    by (simp add: job_of_def)
  have g: "granted_locks ?H = [''g/l/A'', ''g/l/B'']"
    by code_simp
  have k: "lock_id_of ?j (target_mapset_name ?j) = ''g/l/A''"
    by (simp add: job_of_def lock_id_of_def)
  have d: "distinct (granted_locks ?H)"
    using self_merge_is_skipped [of ?j exclusive_service] refuses_held_exclusive_service
    by blast
  have held: "lock_id_of ?j (target_mapset_name ?j) \<in> set (granted_locks ?H)"
    by (simp add: g k)
  have r: "raised_logs ?H = []"
    by code_simp
  have f: "cleanup_failures ?H = []"
    by code_simp
  have e: "fst (run exclusive_service ?j) =
      Inl (AsyncProcessError ''Unable to lock mapset <A>, resource is already locked'')"
    by code_simp
  have "polls ?H = [] \<and> merge_calls ?H = [] \<and>
      lock_id_of ?j (target_mapset_name ?j) \<in> set (unlock_calls ?H)"
    using self_merge_is_skipped [of ?j exclusive_service] among d held r f by blast
  then show ?thesis
    using refuses_held_exclusive_service among d held r f e by (simp add: k)
qed

text \<open>
  The claim that the run does not fail because of the target among the sources fails
  with a lock service that refuses a lock id that is held: with target \<^verbatim>\<open>A\<close> and the
  sources \<^verbatim>\<open>A\<close>, \<^verbatim>\<open>B\<close>, \<^verbatim>\<open>C\<close>, the lock of the target is granted, the lock call for the
  source \<^verbatim>\<open>A\<close> is refused, and the run ends with the error that \<^verbatim>\<open>A\<close> is already locked;
  nothing is copied, and the cleanup unlocks \<^verbatim>\<open>A\<close>.
\<close>

theorem self_merge_refused_counterexample:
  "fst (run exclusive_service (job_of ''A'' [''A'', ''B'', ''C''])) =
     Inl (AsyncProcessError ''Unable to lock mapset <A>, resource is already locked'') \<and>
   lock_calls (history (snd (run exclusive_service (job_of ''A'' [''A'', ''B'', ''C''])))) =
     [''g/l/A'', ''g/l/A''] \<and>
   granted_locks (history (snd (run exclusive_service (job_of ''A'' [''A'', ''B'', ''C''])))) =
     [''g/l/A''] \<and>
   merge_calls (history (snd (run exclusive_service (job_of ''A'' [''A'', ''B'', ''C''])))) = [] \<and>
   unlock_calls (history (snd (run exclusive_service (job_of ''A'' [''A'', ''B'', ''C''])))) =
     [''g/l/A'']"
  by code_simp

subsection \<open>C5: a termination request\<close>

text \<open>
  C5, as the code has it. The termination flag is polled at the beginning of every
  iteration of the loop, before the copy of that iteration. A flag that is set whenever
  \<open>n\<close> copies were made lets the run make at most \<open>n\<close> copies. Let some poll of the flag
  be answered \<^verbatim>\<open>True\<close> during a run. Then the run ends with \<^verbatim>\<open>AsyncProcessTermination\<close>
  and the message \<^verbatim>\<open>Mapset merging was terminated by user request at setp k of N\<close>,
  where \<open>N\<close> is the number of sources and \<open>k\<close> is one more than the number of merge-copy
  invocations of the run: exactly \<open>k - 1\<close> copies were made, and \<open>k\<close> is at most \<open>N\<close>. The
  flag was set at a moment at which all these copies had been made, so that a flag
  that is not set before \<open>n\<close> copies were made lets the run make at least \<open>n\<close> copies.
  The locks of the target and of all sources were granted before. When the calls of
  the cleanup return, the cleanup unlocks all the lock ids that were granted, each of
  them once. The decimal text of a number determines the number.
\<close>

theorem termination_between_steps:
  "((\<forall>h. length (merge_calls h) = n \<longrightarrow>
        get_termination c h (user_id j) (resource_id j) = Inr True) \<longrightarrow>
      length (merge_calls (history (snd (run c j)))) \<le> n) \<and>
   (termination_signals (history (snd (run c j))) \<noteq> [] \<longrightarrow>
      fst (run c j) =
        Inl (AsyncProcessTermination
          (''Mapset merging was terminated by user request at setp '' @
           show_nat (Suc (length (merge_calls (history (snd (run c j)))))) @ '' of '' @
           show_nat (length (request_data j)))) \<and>
      Suc (length (merge_calls (history (snd (run c j))))) \<le> length (request_data j) \<and>
      (\<exists>h. get_termination c h (user_id j) (resource_id j) = Inr True \<and>
         merge_calls h = merge_calls (history (snd (run c j)))) \<and>
      ((\<forall>h. get_termination c h (user_id j) (resource_id j) = Inr True \<longrightarrow>
          n \<le> length (merge_calls h)) \<longrightarrow>
        n \<le> length (merge_calls (history (snd (run c j))))) \<and>
      granted_locks (history (snd (run c j))) =
        map (lock_id_of j) (target_mapset_name j # request_data j) \<and>
      (cleanup_failures (history (snd (run c j))) = [] \<longrightarrow>
         unlock_calls (history (snd (run c j))) =
           map (lock_id_of j) (first_occurrences (target_mapset_name j # request_data j)) \<and>
         set (unlock_calls (history (snd (run c j)))) =
           set (granted_locks (history (snd (run c j)))))) \<and>
   (\<forall>a b. show_nat a = show_nat b \<longrightarrow> a = b)"
proof -
  let ?H = "history (snd (run c j))"
  let ?s0 = "record_event (EvSetup (Inr ())) new_merging"
  let ?t = "target_mapset_name j"
  have flag: "length (merge_calls ?H) \<le> n"
    if f: "\<forall>h. length (merge_calls h) = n \<longrightarrow>
        get_termination c h (user_id j) (resource_id j) = Inr True"
  proof (cases rule: execute_cases [of c j])
    case (setup_failed e)
    then show ?thesis by (simp add: run_trace)
  next
    case started
    have "length (merge_calls (history ?s0)) \<le> n" by simp
    then show ?thesis
      using merge_mapsets_flag [OF f] started by (simp add: run_trace)
  qed
  have stopped: "fst (run c j) =
        Inl (AsyncProcessTermination
          (''Mapset merging was terminated by user request at setp '' @
           show_nat (Suc (length (merge_calls ?H))) @ '' of '' @
           show_nat (length (request_data j)))) \<and>
      Suc (length (merge_calls ?H)) \<le> length (request_data j) \<and>
      (\<exists>h. get_termination c h (user_id j) (resource_id j) = Inr True \<and>
         merge_calls h = merge_calls ?H) \<and>
      granted_locks ?H = map (lock_id_of j) (?t # request_data j) \<and>
      (cleanup_failures ?H = [] \<longrightarrow>
         unlock_calls ?H = map (lock_id_of j) (first_occurrences (?t # request_data j)))"
    if sig0: "termination_signals ?H \<noteq> []"
  proof (cases rule: execute_cases [of c j])
    case (setup_failed e)
    then show ?thesis using sig0 by (simp add: run_trace)
  next
    case started
    have sig: "termination_signals (history (snd (merge_mapsets c j ?s0))) \<noteq>
        termination_signals (history ?s0)"
      using sig0 started by (simp add: run_trace)
    have s0: "lock_ids ?s0 = []" by simp
    obtain k where k:
      "fst (merge_mapsets c j ?s0) =
         Inl (AsyncProcessTermination (termination_message k (length (request_data j))))"
      "length (merge_calls (history (snd (merge_mapsets c j ?s0)))) + 1 =
         length (merge_calls (history ?s0)) + k"
      using merge_mapsets_terminated(1) [OF sig] by blast
    have k': "k = Suc (length (merge_calls (history (snd (merge_mapsets c j ?s0)))))"
      using k(2) by simp
    have res: "fst (run c j) =
        Inl (AsyncProcessTermination
          (''Mapset merging was terminated by user request at setp '' @
           show_nat (Suc (length (merge_calls ?H))) @ '' of '' @
           show_nat (length (request_data j))))"
      using k(1) k' started by (simp add: run_parts(1) run_trace termination_message_def)
    have g: "granted_locks ?H = map (lock_id_of j) (?t # request_data j)"
      using merge_mapsets_terminated(2) [OF sig] started by (simp add: run_trace)
    have b: "Suc (length (merge_calls ?H)) \<le> length (request_data j)"
      using merge_mapsets_terminated_at [OF s0 sig] started by (simp add: run_trace)
    have h: "\<exists>h. get_termination c h (user_id j) (resource_id j) = Inr True \<and>
         merge_calls h = merge_calls ?H"
      using merge_mapsets_signal [OF sig] started by (simp add: run_trace)
    have reg: "lock_ids (snd (execute c j new_merging)) =
        map (\<lambda>x. (lock_id_of j x, x)) (first_occurrences (?t # request_data j))"
      using merge_mapsets_terminated_registry [OF s0 sig] started by simp
    have u: "unlock_calls ?H = map (lock_id_of j) (first_occurrences (?t # request_data j))"
      if "cleanup_failures ?H = []"
      using run_unlock_calls [OF that] reg by (simp add: comp_def)
    show ?thesis
      using res g b h u by blast
  qed
  have late: "n \<le> length (merge_calls ?H)"
    if "termination_signals ?H \<noteq> []"
      and "\<forall>h. get_termination c h (user_id j) (resource_id j) = Inr True \<longrightarrow>
          n \<le> length (merge_calls h)"
    using stopped [OF that(1)] that(2) by metis
  have sets: "set (unlock_calls ?H) = set (granted_locks ?H)"
    if "termination_signals ?H \<noteq> []" and "cleanup_failures ?H = []"
  proof -
    have "unlock_calls ?H = map (lock_id_of j) (first_occurrences (?t # request_data j))"
      and "granted_locks ?H = map (lock_id_of j) (?t # request_data j)"
      using stopped [OF that(1)] that(2) by simp_all
    then show ?thesis
      by (simp only: set_map set_first_occurrences)
  qed
  show ?thesis
    using flag stopped late sets show_nat_inj by blast
qed

theorem termination_between_steps_witness:
  "termination_signals (history (snd (run terminated_after_first_copy
      (job_of ''A'' [''B'', ''C''])))) \<noteq> [] \<and>
   cleanup_failures (history (snd (run terminated_after_first_copy
      (job_of ''A'' [''B'', ''C''])))) = [] \<and>
   fst (run terminated_after_first_copy (job_of ''A'' [''B'', ''C''])) =
     Inl (AsyncProcessTermination
       ''Mapset merging was terminated by user request at setp 2 of 2'') \<and>
   length (merge_calls (history (snd (run terminated_after_first_copy
      (job_of ''A'' [''B'', ''C'']))))) \<le> 1 \<and>
   1 \<le> length (merge_calls (history (snd (run terminated_after_first_copy
      (job_of ''A'' [''B'', ''C'']))))) \<and>
   unlock_calls (history (snd (run terminated_after_first_copy (job_of ''A'' [''B'', ''C''])))) =
     [''g/l/A'', ''g/l/B'', ''g/l/C'']"
proof -
  let ?j = "job_of ''A'' [''B'', ''C'']"
  let ?r = "run terminated_after_first_copy ?j"
  have sig: "termination_signals (history (snd ?r)) \<noteq> []"
    by code_simp
  have f: "cleanup_failures (history (snd ?r)) = []"
    by code_simp
  have res: "fst ?r = Inl (AsyncProcessTermination
       ''Mapset merging was terminated by user request at setp 2 of 2'')"
    by code_simp
  have set_at: "\<forall>h. length (merge_calls h) = 1 \<longrightarrow>
      get_termination terminated_after_first_copy h (user_id ?j) (resource_id ?j) = Inr True"
    by (auto simp: terminated_after_first_copy_def)
  have not_before: "\<forall>h. get_termination terminated_after_first_copy h (user_id ?j) (resource_id ?j) =
      Inr True \<longrightarrow> 1 \<le> length (merge_calls h)"
    by (auto simp: terminated_after_first_copy_def Suc_le_eq)
  note inst = termination_between_steps [of 1 terminated_after_first_copy ?j]
  have upper: "length (merge_calls (history (snd ?r))) \<le> 1"
    using inst set_at by blast
  have lower: "1 \<le> length (merge_calls (history (snd ?r)))"
    using inst sig not_before by blast
  have "unlock_calls (history (snd ?r)) =
      map (lock_id_of ?j) (first_occurrences (target_mapset_name ?j # request_data ?j))"
    using inst sig f by blast
  then have u: "unlock_calls (history (snd ?r)) = [''g/l/A'', ''g/l/B'', ''g/l/C'']"
    by (simp add: job_of_def lock_id_of_def first_occurrences_def)
  show ?thesis
    using sig f res upper lower u by simp
qed

text \<open>
  The claim that the cleanup still releases every lock fails when an unlock call
  raises: with target \<^verbatim>\<open>A\<close>, the sources \<^verbatim>\<open>B\<close> and \<^verbatim>\<open>C\<close> and a termination that is
  requested after the first copy, the run ends with \<^verbatim>\<open>AsyncProcessTermination\<close>, three
  locks were granted, and the exception of the first unlock call ends the cleanup
  after one unlock call.
\<close>

theorem termination_cleanup_counterexample:
  "fst (run terminated_unlock_raising (job_of ''A'' [''B'', ''C''])) =
     Inl (AsyncProcessTermination
       ''Mapset merging was terminated by user request at setp 2 of 2'') \<and>
   merge_calls (history (snd (run terminated_unlock_raising (job_of ''A'' [''B'', ''C''])))) =
     [(''B'', ''A'')] \<and>
   granted_locks (history (snd (run terminated_unlock_raising (job_of ''A'' [''B'', ''C''])))) =
     [''g/l/A'', ''g/l/B'', ''g/l/C''] \<and>
   unlock_calls (history (snd (run terminated_unlock_raising (job_of ''A'' [''B'', ''C''])))) =
     [''g/l/A'']"
  by code_simp

subsection \<open>C6: a lease that cannot be extended\<close>

text \<open>
  C6. Let some extension call be answered \<^verbatim>\<open>0\<close> during a run. The mapsets are
  processed in the order of the registry: the target, then the sources in the order of
  their first occurrences. With \<open>i + 1\<close> polls of the termination flag in the trace, the
  mapset that is being processed is the one at position \<open>i\<close>. The run ends with the
  error \<^verbatim>\<open>Unable to extend lock for mapset <m>\<close>, where \<^verbatim>\<open>m\<close> is that mapset; the
  copies that were made are those of the mapsets before position \<open>i\<close>, and no mapset
  from position \<open>i\<close> on was copied. The text of the error determines the mapset.
\<close>

theorem lease_lost_stops_copies:
  assumes "failed_extends (history (snd (run c j))) \<noteq> []"
  shows "(\<exists>i < length (first_occurrences (target_mapset_name j # request_data j)).
           length (polls (history (snd (run c j)))) = Suc i \<and>
           fst (run c j) =
             Inl (AsyncProcessError (''Unable to extend lock for mapset <'' @
               first_occurrences (target_mapset_name j # request_data j) ! i @ ''>'')) \<and>
           fst (run c j) =
             Inl (AsyncProcessError (extend_failed_message
               (first_occurrences (target_mapset_name j # request_data j) ! i))) \<and>
           merge_calls (history (snd (run c j))) =
             copies (target_mapset_name j)
               (take i (first_occurrences (target_mapset_name j # request_data j))) \<and>
           fst ` set (merge_calls (history (snd (run c j)))) \<inter>
             set (drop i (first_occurrences (target_mapset_name j # request_data j))) = {}) \<and>
         (\<forall>m m'. extend_failed_message m = extend_failed_message m' \<longrightarrow> m = m')"
proof (cases rule: execute_cases [of c j])
  case (setup_failed e)
  then show ?thesis using assms by (simp add: run_trace)
next
  case started
  let ?s0 = "record_event (EvSetup (Inr ())) new_merging"
  let ?names = "first_occurrences (target_mapset_name j # request_data j)"
  have fe: "failed_extends (history (snd (merge_mapsets c j ?s0))) \<noteq>
      failed_extends (history ?s0)"
    using assms started by (simp add: run_trace)
  have s0: "lock_ids ?s0 = []" by simp
  from merge_mapsets_lease_lost [OF s0 fe] obtain i where i:
    "i < length ?names"
    "length (polls (history (snd (merge_mapsets c j ?s0)))) = Suc i + length (polls (history ?s0))"
    "fst (merge_mapsets c j ?s0) =
       Inl (AsyncProcessError (extend_failed_message (?names ! i)))"
    "merge_calls (history (snd (merge_mapsets c j ?s0))) =
       merge_calls (history ?s0) @ copies (target_mapset_name j) (take i ?names)"
    by blast
  have m: "merge_calls (history (snd (run c j))) =
      copies (target_mapset_name j) (take i ?names)"
    using i(4) started by (simp add: run_trace)
  have "set (take i ?names) \<inter> set (drop i ?names) = {}"
    by (rule set_take_disj_set_drop_if_distinct) simp_all
  then have disj: "fst ` set (merge_calls (history (snd (run c j)))) \<inter>
      set (drop i ?names) = {}"
    by (auto simp: m fst_copies)
  have res: "fst (run c j) = Inl (AsyncProcessError (extend_failed_message (?names ! i)))"
    using i(3) started by (simp add: run_parts(1))
  then have lit: "fst (run c j) =
      Inl (AsyncProcessError (''Unable to extend lock for mapset <'' @ ?names ! i @ ''>''))"
    by (simp add: extend_failed_message_def)
  have p: "length (polls (history (snd (run c j)))) = Suc i"
    using i(2) started by (simp add: run_trace)
  have "\<exists>i < length ?names.
           length (polls (history (snd (run c j)))) = Suc i \<and>
           fst (run c j) =
             Inl (AsyncProcessError (''Unable to extend lock for mapset <'' @ ?names ! i @ ''>'')) \<and>
           fst (run c j) = Inl (AsyncProcessError (extend_failed_message (?names ! i))) \<and>
           merge_calls (history (snd (run c j))) =
             copies (target_mapset_name j) (take i ?names) \<and>
           fst ` set (merge_calls (history (snd (run c j)))) \<inter> set (drop i ?names) = {}"
    using i(1) p lit res m disj by blast
  then show ?thesis
    using extend_failed_message_inj by blast
qed

theorem lease_lost_stops_copies_witness:
  "failed_extends (history (snd (run lease_lost_after_first_copy
      (job_of ''A'' [''B'', ''C''])))) \<noteq> [] \<and>
   fst (run lease_lost_after_first_copy (job_of ''A'' [''B'', ''C''])) =
     Inl (AsyncProcessError ''Unable to extend lock for mapset <C>'') \<and>
   merge_calls (history (snd (run lease_lost_after_first_copy
      (job_of ''A'' [''B'', ''C''])))) = [(''B'', ''A'')]"
proof -
  let ?r = "run lease_lost_after_first_copy (job_of ''A'' [''B'', ''C''])"
  have fe: "failed_extends (history (snd ?r)) \<noteq> []"
    by code_simp
  have p: "length (polls (history (snd ?r))) = Suc 2"
    by code_simp
  have n: "first_occurrences (target_mapset_name (job_of ''A'' [''B'', ''C'']) #
      request_data (job_of ''A'' [''B'', ''C''])) = [''A'', ''B'', ''C'']"
    by (simp add: job_of_def first_occurrences_def)
  have t: "target_mapset_name (job_of ''A'' [''B'', ''C'']) = ''A''"
    by (simp add: job_of_def)
  let ?names = "first_occurrences (target_mapset_name (job_of ''A'' [''B'', ''C'']) #
      request_data (job_of ''A'' [''B'', ''C'']))"
  from lease_lost_stops_copies [OF fe] obtain i where i:
    "length (polls (history (snd ?r))) = Suc i"
    "fst ?r = Inl (AsyncProcessError (''Unable to extend lock for mapset <'' @ ?names ! i @ ''>''))"
    "merge_calls (history (snd ?r)) =
       copies (target_mapset_name (job_of ''A'' [''B'', ''C''])) (take i ?names)"
    by blast
  have i2: "i = 2"
    using i(1) p by simp
  have "[''A'', ''B'', ''C''] ! 2 = ''C''"
    by simp
  moreover have "fst ?r = Inl (AsyncProcessError
      (''Unable to extend lock for mapset <'' @ [''A'', ''B'', ''C''] ! 2 @ ''>''))"
    using i(2) by (simp only: i2 n)
  ultimately have res: "fst ?r = Inl (AsyncProcessError ''Unable to extend lock for mapset <C>'')"
    by simp
  have "take 2 [''A'', ''B'', ''C''] = [''A'', ''B'']"
    by simp
  moreover have "merge_calls (history (snd ?r)) =
      copies (target_mapset_name (job_of ''A'' [''B'', ''C''])) (take 2 [''A'', ''B'', ''C''])"
    using i(3) by (simp only: i2 n)
  ultimately have "merge_calls (history (snd ?r)) = copies ''A'' [''A'', ''B'']"
    by (simp only: t)
  then have "merge_calls (history (snd ?r)) = [(''B'', ''A'')]"
    by simp
  then show ?thesis using fe res by simp
qed

subsection \<open>C7: the step counter\<close>

text \<open>
  C7, as the code has it. The step counter is 1 when the loop is entered. However the
  loop is left, the counter has grown by the number of merge-copy invocations that were
  made: it is incremented immediately before each invocation, whether the invocation
  returns or raises. An iteration whose mapset is the target leaves the counter as it
  is and makes no copy.
\<close>

theorem step_counts_copy_invocations:
  "step loop_entry = 1 \<and>
   step (fst (snd (merge_loop c j n ks v s))) + length (merge_calls (history s)) =
     step v + length (merge_calls (history (snd (snd (merge_loop c j n ks v s))))) \<and>
   (map_of (lock_ids s) k = Some (target_mapset_name j) \<longrightarrow>
      step (fst (snd (merge_step c j n k v s))) = step v \<and>
      merge_calls (history (snd (snd (merge_step c j n k v s)))) = merge_calls (history s))"
proof -
  obtain r v' s' where loop: "merge_loop c j n ks v s = (r, v', s')"
    by (cases "merge_loop c j n ks v s")
  obtain r1 v1 s1 where st: "merge_step c j n k v s = (r1, v1, s1)"
    by (cases "merge_step c j n k v s")
  show ?thesis
    using merge_loop_frame [OF loop] merge_step_target [OF st] loop st
    by (simp add: loop_entry_def)
qed

theorem step_counts_copy_invocations_witness:
  "map_of (lock_ids holding_A_B) ''g/l/A'' = Some (target_mapset_name (job_of ''A'' [''B''])) \<and>
   step (fst (snd (merge_step granting (job_of ''A'' [''B'']) 1 ''g/l/A'' loop_entry holding_A_B))) = 1 \<and>
   step (fst (snd (merge_loop granting (job_of ''A'' [''B'']) 1 [''g/l/A'', ''g/l/B'']
     loop_entry holding_A_B))) = 2"
proof -
  have t: "map_of (lock_ids holding_A_B) ''g/l/A'' = Some (target_mapset_name (job_of ''A'' [''B'']))"
    by (simp add: holding_A_B_def job_of_def)
  have m: "length (merge_calls (history (snd (snd (merge_loop granting (job_of ''A'' [''B'']) 1
      [''g/l/A'', ''g/l/B''] loop_entry holding_A_B))))) = 1"
    by code_simp
  have h: "merge_calls (history holding_A_B) = []"
    by (simp add: holding_A_B_def)
  show ?thesis
    using step_counts_copy_invocations [of granting "job_of ''A'' [''B'']" 1
        "[''g/l/A'', ''g/l/B'']" loop_entry holding_A_B "''g/l/A''"] t m h
    by simp
qed

text \<open>
  The counter is not incremented after a copy that succeeded, but before the copy is
  called: with \<^verbatim>\<open>A\<close> and \<^verbatim>\<open>B\<close> locked, target \<^verbatim>\<open>A\<close> and a copy that raises, the loop
  is left by the exception of the copy of \<^verbatim>\<open>B\<close> with the counter at 2, and no copy has
  returned.
\<close>

theorem step_incremented_before_copy_counterexample:
  "fst (merge_loop copy_failing (job_of ''A'' [''B'']) 1 [''g/l/A'', ''g/l/B'']
     loop_entry holding_A_B) = Some (OtherException ''copy failed'') \<and>
   step (fst (snd (merge_loop copy_failing (job_of ''A'' [''B'']) 1 [''g/l/A'', ''g/l/B'']
     loop_entry holding_A_B))) = 2 \<and>
   completed_merges (history (snd (snd (merge_loop copy_failing (job_of ''A'' [''B'']) 1
     [''g/l/A'', ''g/l/B''] loop_entry holding_A_B)))) = []"
  by code_simp

end
